theory Spec2Isabelle
  imports Main "HOL-Library.Word" "HOL-Library.Sublist"
begin

section \<open>Strings and bytes of the source language\<close>

text \<open>
  The chat widget \<^verbatim>\<open>src/components/AIChat.tsx\<close> is TypeScript. Its strings are sequences of
  UTF-16 code units, the chunks handed out by the response reader are arrays of bytes.
\<close>

type_synonym jschar = "16 word"
type_synonym jsstring = "jschar list"
type_synonym byte = "8 word"

definition ascii :: "string \<Rightarrow> jsstring" where
  "ascii s = map of_char s"

definition NL :: jschar where
  "NL = 0x0A"

definition CR :: jschar where
  "CR = 0x0D"

definition startsWith :: "jsstring \<Rightarrow> jsstring \<Rightarrow> bool" where
  "startsWith s p = prefix p s"

definition endsWith :: "jsstring \<Rightarrow> jsstring \<Rightarrow> bool" where
  "endsWith s p = suffix p s"

text \<open>
  \<^verbatim>\<open>String.prototype.trim\<close> removes leading and trailing white space and line terminators
  (ECMAScript \<^verbatim>\<open>WhiteSpace\<close> and \<^verbatim>\<open>LineTerminator\<close>); all of them are single code units.
\<close>

definition is_ws :: "jschar \<Rightarrow> bool" where
  "is_ws c = (c \<in> set [0x09, 0x0A, 0x0B, 0x0C, 0x0D, 0x20, 0xA0, 0x1680,
                        0x2000, 0x2001, 0x2002, 0x2003, 0x2004, 0x2005, 0x2006, 0x2007,
                        0x2008, 0x2009, 0x200A, 0x2028, 0x2029, 0x202F, 0x205F, 0x3000,
                        0xFEFF])"

definition trim :: "jsstring \<Rightarrow> jsstring" where
  "trim s = rev (dropWhile is_ws (rev (dropWhile is_ws s)))"

text \<open>\<^verbatim>\<open>s.indexOf(c)\<close>; the result \<^verbatim>\<open>-1\<close> of the source is \<open>None\<close>.\<close>

fun indexOf :: "'a list \<Rightarrow> 'a \<Rightarrow> nat option" where
  "indexOf [] c = None"
| "indexOf (x # xs) c = (if x = c then Some 0 else map_option Suc (indexOf xs c))"


section \<open>Values delivered by the platform\<close>

text \<open>
  What \<^verbatim>\<open>JSON.parse\<close> returns. Numbers are kept abstract (\<open>'n\<close>). An object lists its own
  properties, each key once. \<open>None\<close> of type \<open>json option\<close> stands for \<^verbatim>\<open>undefined\<close>.
\<close>

datatype 'n json =
    JNull
  | JBool bool
  | JNum 'n
  | JStr jsstring
  | JArr "'n json list"
  | JObj "(jsstring \<times> 'n json) list"

datatype js_error = SyntaxError | TypeError

text \<open>
  The functions of the JavaScript platform that \<^verbatim>\<open>sendMessage\<close> calls and that are not part
  of the repository:
  \<^item> \<open>JSON_parse\<close>: \<^verbatim>\<open>JSON.parse\<close>, \<open>None\<close> when it throws a \<^verbatim>\<open>SyntaxError\<close>;
  \<^item> \<open>decode_byte\<close>: the streaming \<^verbatim>\<open>TextDecoder\<close> (\<^verbatim>\<open>decode(value, {stream: true})\<close>), which
    the Encoding Standard defines as a state machine consuming one byte at a time and
    emitting the code units that are complete so far;
  \<^item> \<open>number_truthy\<close>: \<^verbatim>\<open>ToBoolean\<close> on a number;
  \<^item> \<open>to_text\<close>: the string that \<^verbatim>\<open>+=\<close> appends for a value that is not a string
    (\<^verbatim>\<open>ToString(ToPrimitive(v))\<close>), \<open>None\<close> when the conversion throws a \<^verbatim>\<open>TypeError\<close>.
\<close>

record ('d, 'n) platform =
  JSON_parse :: "jsstring \<Rightarrow> 'n json option"
  decode_byte :: "'d \<Rightarrow> byte \<Rightarrow> 'd \<times> jsstring"
  number_truthy :: "'n \<Rightarrow> bool"
  to_text :: "'n json \<Rightarrow> jsstring option"

text \<open>\<^verbatim>\<open>decoder.decode(value, { stream: true })\<close>: the new decoder state and the decoded text.\<close>

fun decode :: "('d, 'n) platform \<Rightarrow> 'd \<Rightarrow> byte list \<Rightarrow> 'd \<times> jsstring" where
  "decode pf d [] = (d, [])"
| "decode pf d (b # bs) =
     (case decode_byte pf d b of (d1, t1) \<Rightarrow>
        (case decode pf d1 bs of (d2, t2) \<Rightarrow> (d2, t1 @ t2)))"

text \<open>
  Reading property \<open>k\<close> of a value that is neither \<^verbatim>\<open>null\<close> nor \<^verbatim>\<open>undefined\<close>, for the keys
  the source reads (\<^verbatim>\<open>choices\<close>, \<^verbatim>\<open>0\<close>, \<^verbatim>\<open>delta\<close>, \<^verbatim>\<open>content\<close>; none of them is inherited from
  a prototype).
\<close>

fun get_member :: "'n json \<Rightarrow> jsstring \<Rightarrow> 'n json option" where
  "get_member (JObj kvs) k = map_of kvs k"
| "get_member (JArr xs) k =
     (if k = ascii ''0'' then (case xs of [] \<Rightarrow> None | x # _ \<Rightarrow> Some x) else None)"
| "get_member (JStr s) k =
     (if k = ascii ''0'' then (case s of [] \<Rightarrow> None | c # _ \<Rightarrow> Some (JStr [c])) else None)"
| "get_member v k = None"

text \<open>Optional chaining \<^verbatim>\<open>v?.k\<close>.\<close>

definition opt_member :: "'n json option \<Rightarrow> jsstring \<Rightarrow> 'n json option" where
  "opt_member v k =
     (case v of None \<Rightarrow> None | Some JNull \<Rightarrow> None | Some x \<Rightarrow> get_member x k)"

text \<open>\<^verbatim>\<open>parsed.choices?.[0]?.delta?.content\<close>; the first access throws on \<^verbatim>\<open>null\<close>.\<close>

definition delta_content :: "'n json \<Rightarrow> js_error + 'n json option" where
  "delta_content parsed =
     (case parsed of
        JNull \<Rightarrow> Inl TypeError
      | _ \<Rightarrow> Inr (opt_member (opt_member (opt_member (get_member parsed (ascii ''choices''))
                     (ascii ''0'')) (ascii ''delta'')) (ascii ''content'')))"

text \<open>The test \<^verbatim>\<open>if (content)\<close>.\<close>

fun ToBoolean :: "('d, 'n) platform \<Rightarrow> 'n json option \<Rightarrow> bool" where
  "ToBoolean pf None = False"
| "ToBoolean pf (Some JNull) = False"
| "ToBoolean pf (Some (JBool b)) = b"
| "ToBoolean pf (Some (JNum n)) = number_truthy pf n"
| "ToBoolean pf (Some (JStr s)) = (s \<noteq> [])"
| "ToBoolean pf (Some (JArr xs)) = True"
| "ToBoolean pf (Some (JObj kvs)) = True"

text \<open>The text that \<^verbatim>\<open>assistantContent += content\<close> appends.\<close>

fun appended_text :: "('d, 'n) platform \<Rightarrow> 'n json \<Rightarrow> js_error + jsstring" where
  "appended_text pf (JStr s) = Inr s"
| "appended_text pf v = (case to_text pf v of None \<Rightarrow> Inl TypeError | Some t \<Rightarrow> Inr t)"


section \<open>The chat widget\<close>

datatype role = User | Assistant

record message =
  role :: role
  content :: jsstring

text \<open>
  The local variables of the streaming block of \<^verbatim>\<open>sendMessage\<close> (\<open>textBuffer\<close>,
  \<open>streamDone\<close>, \<open>assistantContent\<close>, \<open>decoder\<close>), the message list as the functional updates
  \<^verbatim>\<open>setMessages(prev => ...)\<close> see it (\<open>msgs\<close>), and three logs of what the block did:
  \<open>deltas\<close> holds every truthy \<^verbatim>\<open>content\<close> appended to the reply, in order; \<open>history\<close> the
  message list after each update made while streaming; \<open>reads\<close> counts the calls of
  \<^verbatim>\<open>reader.read()\<close>.
\<close>

record 'd stream_state =
  textBuffer :: jsstring
  streamDone :: bool
  assistantContent :: jsstring
  decoder :: 'd
  msgs :: "message list"
  deltas :: "jsstring list"
  history :: "message list list"
  reads :: nat

text \<open>
  The updater of lines 93 to 100: copy the list and store the assistant message at index
  \<^verbatim>\<open>length - 1\<close>. On an empty array the source's store at index \<^verbatim>\<open>-1\<close> adds no element;
  \<open>list_update\<close> leaves the empty list unchanged as well.
\<close>

definition set_last_message :: "jsstring \<Rightarrow> message list \<Rightarrow> message list" where
  "set_last_message reply prev =
     prev[length prev - 1 := \<lparr>role = Assistant, content = reply\<rparr>]"

definition push_delta :: "jsstring \<Rightarrow> 'd stream_state \<Rightarrow> 'd stream_state" where
  "push_delta text s =
     (let ac = assistantContent s @ text;
          newMessages = set_last_message ac (msgs s)
      in s\<lparr>assistantContent := ac, msgs := newMessages,
            deltas := deltas s @ [text], history := history s @ [newMessages]\<rparr>)"

text \<open>
  Lines 89 to 92 up to the conversion of \<^verbatim>\<open>content\<close>: \<open>Inl\<close> when one of them throws,
  \<open>Inr None\<close> when \<^verbatim>\<open>content\<close> is falsy, \<open>Inr (Some text)\<close> when it is truthy and \<open>text\<close> is
  what \<^verbatim>\<open>+=\<close> appends.
\<close>

definition delta_text :: "('d, 'n) platform \<Rightarrow> jsstring \<Rightarrow> js_error + jsstring option" where
  "delta_text pf jsonStr =
     (case JSON_parse pf jsonStr of
        None \<Rightarrow> Inl SyntaxError
      | Some parsed \<Rightarrow>
          (case delta_content parsed of
             Inl e \<Rightarrow> Inl e
           | Inr None \<Rightarrow> Inr None
           | Inr (Some c) \<Rightarrow>
               if ToBoolean pf (Some c)
               then (case appended_text pf c of
                       Inl e \<Rightarrow> Inl e
                     | Inr text \<Rightarrow> Inr (Some text))
               else Inr None))"

text \<open>The \<^verbatim>\<open>try\<close> block of lines 88 to 101; \<open>Inl\<close> is a thrown exception.\<close>

definition try_block ::
  "('d, 'n) platform \<Rightarrow> jsstring \<Rightarrow> 'd stream_state \<Rightarrow> js_error + 'd stream_state" where
  "try_block pf jsonStr s =
     (case delta_text pf jsonStr of
        Inl e \<Rightarrow> Inl e
      | Inr None \<Rightarrow> Inr s
      | Inr (Some text) \<Rightarrow> Inr (push_delta text s))"

text \<open>Line 78: \<^verbatim>\<open>if (line.endsWith("\r")) line = line.slice(0, -1)\<close>.\<close>

definition strip_cr :: "jsstring \<Rightarrow> jsstring" where
  "strip_cr line = (if endsWith line [CR] then butlast line else line)"

text \<open>
  The body of the inner \<^verbatim>\<open>while\<close> loop after the line has been cut off the buffer (lines 78
  to 105): \<open>s\<close> already holds the rest of the buffer, \<open>line0\<close> is the line that was cut off.
  The result says whether the loop goes on (\<^verbatim>\<open>continue\<close>, or the end of the body) or is left
  (\<^verbatim>\<open>break\<close>).
\<close>

datatype flow = Continue | Break

definition line_body ::
  "('d, 'n) platform \<Rightarrow> 'd stream_state \<Rightarrow> jsstring \<Rightarrow> flow \<times> 'd stream_state" where
  "line_body pf s line0 =
     (let line = strip_cr line0 in
      if startsWith line (ascii '':'') \<or> trim line = [] then (Continue, s)
      else if \<not> startsWith line (ascii ''data: '') then (Continue, s)
      else
        let jsonStr = trim (drop 6 line) in
        if jsonStr = ascii ''[DONE]'' then (Break, s\<lparr>streamDone := True\<rparr>)
        else
          (case try_block pf jsonStr s of
             Inr s' \<Rightarrow> (Continue, s')
           | Inl e \<Rightarrow> (Break, s\<lparr>textBuffer := line @ [NL] @ textBuffer s\<rparr>)))"

lemma push_delta_textBuffer: "textBuffer (push_delta t s) = textBuffer s"
  by (simp add: push_delta_def Let_def)

lemma try_block_textBuffer: "try_block pf j s = Inr s' \<Longrightarrow> textBuffer s' = textBuffer s"
  by (auto simp: try_block_def push_delta_textBuffer split: option.splits sum.splits)

lemma line_body_Continue_textBuffer:
  "line_body pf s l = (Continue, s') \<Longrightarrow> textBuffer s' = textBuffer s"
  by (auto simp: line_body_def Let_def try_block_textBuffer split: if_splits sum.splits)

lemma indexOf_less: "indexOf xs c = Some i \<Longrightarrow> i < length xs"
  by (induction xs arbitrary: i) (auto split: if_splits)

text \<open>The inner loop of lines 74 to 106.\<close>

function process_lines :: "('d, 'n) platform \<Rightarrow> 'd stream_state \<Rightarrow> 'd stream_state" where
  "process_lines pf s =
     (case indexOf (textBuffer s) NL of
        None \<Rightarrow> s
      | Some newlineIndex \<Rightarrow>
          (case line_body pf (s\<lparr>textBuffer := drop (newlineIndex + 1) (textBuffer s)\<rparr>)
                               (take newlineIndex (textBuffer s)) of
             (Break, s') \<Rightarrow> s'
           | (Continue, s') \<Rightarrow> process_lines pf s'))"
  by pat_completeness auto
termination
proof (relation "measure (\<lambda>(pf, s). length (textBuffer s))", goal_cases)
  case 1
  show ?case by simp
next
  case (2 pf s i x y)
  from 2(2,3) have "line_body pf (s\<lparr>textBuffer := drop (i + 1) (textBuffer s)\<rparr>)
      (take i (textBuffer s)) = (Continue, y)"
    by simp
  then have "textBuffer y = drop (i + 1) (textBuffer s)"
    by (simp add: line_body_Continue_textBuffer)
  with indexOf_less [OF 2(1)] show ?case
    by simp
qed

text \<open>
  The response body as the reader delivers it: the chunks that \<^verbatim>\<open>reader.read()\<close> returns, and
  then either the end of the stream (\<^verbatim>\<open>done\<close>) or a rejected read (the stream was aborted).
\<close>

datatype ending = Closed | Aborted

record reader =
  chunks :: "byte list list"
  ending :: ending

text \<open>
  The outer loop of lines 67 to 107. \<open>Inl\<close> carries the state in which \<^verbatim>\<open>reader.read()\<close>
  threw, \<open>Inr\<close> the state in which the loop was left.
\<close>

fun read_loop ::
  "('d, 'n) platform \<Rightarrow> 'd stream_state \<Rightarrow> byte list list \<Rightarrow> ending \<Rightarrow>
     'd stream_state + 'd stream_state" where
  "read_loop pf s [] e =
     (if streamDone s then Inr s
      else (case e of
              Closed \<Rightarrow> Inr (s\<lparr>reads := reads s + 1\<rparr>)
            | Aborted \<Rightarrow> Inl (s\<lparr>reads := reads s + 1\<rparr>)))"
| "read_loop pf s (v # vs) e =
     (if streamDone s then Inr s
      else (case decode pf (decoder s) v of
              (d, text) \<Rightarrow>
                read_loop pf
                  (process_lines pf
                     (s\<lparr>reads := reads s + 1, decoder := d,
                        textBuffer := textBuffer s @ text\<rparr>)) vs e))"

text \<open>
  The state of the component (\<open>messages\<close>, \<open>input\<close>, \<open>loading\<close>) and what it did to the
  outside: \<open>toasts\<close> counts the error notifications raised, \<open>requests\<close> lists the \<^verbatim>\<open>messages\<close>
  field of the body of every request issued with \<^verbatim>\<open>fetch\<close>.
\<close>

record chat =
  messages :: "message list"
  input :: jsstring
  loading :: bool
  toasts :: nat
  requests :: "message list list"

text \<open>
  What \<^verbatim>\<open>fetch\<close> answers: it rejects, or it resolves to a response with its \<^verbatim>\<open>ok\<close> flag and
  its body (\<open>None\<close> when \<^verbatim>\<open>response.body\<close> has no reader).
\<close>

datatype response = NetworkError | Response bool "reader option"

text \<open>The \<^verbatim>\<open>catch\<close> and \<^verbatim>\<open>finally\<close> blocks of lines 109 to 119.\<close>

definition catch_block :: "chat \<Rightarrow> chat" where
  "catch_block st = st\<lparr>toasts := toasts st + 1, messages := butlast (messages st)\<rparr>"

definition finally_block :: "chat \<Rightarrow> chat" where
  "finally_block st = st\<lparr>loading := False\<rparr>"

text \<open>The local variables at line 65, after the placeholder has been appended.\<close>

definition start_stream :: "'d \<Rightarrow> message list \<Rightarrow> 'd stream_state" where
  "start_stream d0 ms =
     \<lparr>textBuffer = [], streamDone = False, assistantContent = [], decoder = d0,
      msgs = ms @ [\<lparr>role = Assistant, content = []\<rparr>],
      deltas = [], history = [], reads = 0\<rparr>"

text \<open>
  \<^verbatim>\<open>sendMessage\<close> (lines 32 to 120). \<open>d0\<close> is the state of a fresh \<^verbatim>\<open>TextDecoder\<close>, \<open>resp\<close> the
  answer of the server to this call.
\<close>

definition sendMessage :: "('d, 'n) platform \<Rightarrow> 'd \<Rightarrow> response \<Rightarrow> chat \<Rightarrow> chat" where
  "sendMessage pf d0 resp st =
     (if trim (input st) = [] \<or> loading st then st
      else
        let userMessage = \<lparr>role = User, content = input st\<rparr>;
            st1 = st\<lparr>messages := messages st @ [userMessage], input := [], loading := True,
                     requests := requests st @ [messages st @ [userMessage]]\<rparr>
        in (case resp of
              NetworkError \<Rightarrow> finally_block (catch_block st1)
            | Response ok body \<Rightarrow>
                if \<not> ok then finally_block (catch_block st1)
                else (case body of
                        None \<Rightarrow> finally_block st1
                      | Some r \<Rightarrow>
                          (case read_loop pf (start_stream d0 (messages st1)) (chunks r) (ending r) of
                             Inl s \<Rightarrow> finally_block (catch_block (st1\<lparr>messages := msgs s\<rparr>))
                           | Inr s \<Rightarrow> finally_block (st1\<lparr>messages := msgs s\<rparr>)))))"

text \<open>The \<^verbatim>\<open>jsonStr\<close> of line 82 for a line as it is cut off the buffer (line 75).\<close>

definition payload :: "jsstring \<Rightarrow> jsstring" where
  "payload line0 = trim (drop 6 (strip_cr line0))"

text \<open>The state in which the outer loop ended, whether by an exception or not.\<close>

definition final_state :: "'a + 'a \<Rightarrow> 'a" where
  "final_state r = (case r of Inl s \<Rightarrow> s | Inr s \<Rightarrow> s)"


section \<open>What a stream does to the message list\<close>

text \<open>
  Two relations between the message list before and after an update: the content of the last
  message is extended; and all that changes is the last element.
\<close>

definition grows :: "message list \<Rightarrow> message list \<Rightarrow> bool" where
  "grows before after = prefix (content (last before)) (content (last after))"

definition only_last_replaced :: "message list \<Rightarrow> message list \<Rightarrow> bool" where
  "only_last_replaced before after =
     (length after = length before \<and> butlast after = butlast before)"

text \<open>What holds of the streaming block at every moment, \<open>m0\<close> being the list it started with.\<close>

definition reply_inv :: "message list \<Rightarrow> 'd stream_state \<Rightarrow> bool" where
  "reply_inv m0 s \<longleftrightarrow>
     msgs s \<noteq> [] \<and> last (msgs s) = \<lparr>role = Assistant, content = assistantContent s\<rparr>
     \<and> assistantContent s = concat (deltas s)
     \<and> length (msgs s) = length m0 \<and> butlast (msgs s) = butlast m0
     \<and> last (m0 # history s) = msgs s
     \<and> successively grows (m0 # history s)
     \<and> successively only_last_replaced (m0 # history s)"


section \<open>The inner loop as a function of the buffer\<close>

text \<open>
  What the body of the inner loop does with a line depends on the line only: it ignores it
  (a comment, a blank line, a line without the prefix, a payload without truthy content), ends
  the stream, fails on it, or emits a delta.
\<close>

datatype line_event = Ignored | End | Failed | Delta jsstring

definition line_event :: "('d, 'n) platform \<Rightarrow> jsstring \<Rightarrow> line_event" where
  "line_event pf l =
     (if startsWith l (ascii '':'') \<or> trim l = [] then Ignored
      else if \<not> startsWith l (ascii ''data: '') then Ignored
      else if payload l = ascii ''[DONE]'' then End
      else (case delta_text pf (payload l) of
              Inl e \<Rightarrow> Failed
            | Inr None \<Rightarrow> Ignored
            | Inr (Some t) \<Rightarrow> Delta t))"

text \<open>
  \<open>scan\<close> follows the inner loop on the buffer alone: the deltas emitted, whether the sentinel
  was met, and the buffer that is left. \<open>replay\<close> applies such a result to a state.
\<close>

function scan :: "('d, 'n) platform \<Rightarrow> jsstring \<Rightarrow> jsstring list \<times> bool \<times> jsstring" where
  "scan pf buf =
     (case indexOf buf NL of
        None \<Rightarrow> ([], False, buf)
      | Some i \<Rightarrow>
          (case line_event pf (take i buf) of
             Ignored \<Rightarrow> scan pf (drop (i + 1) buf)
           | End \<Rightarrow> ([], True, drop (i + 1) buf)
           | Failed \<Rightarrow> ([], False, strip_cr (take i buf) @ NL # drop (i + 1) buf)
           | Delta t \<Rightarrow>
               (case scan pf (drop (i + 1) buf) of (ts, d, r) \<Rightarrow> (t # ts, d, r))))"
  by pat_completeness auto
termination
  by (relation "measure (\<lambda>(pf, buf). length buf)") (auto dest: indexOf_less)

declare scan.simps [simp del]

definition replay ::
  "jsstring list \<times> bool \<times> jsstring \<Rightarrow> 'd stream_state \<Rightarrow> 'd stream_state" where
  "replay x s =
     (case x of (ts, d, r) \<Rightarrow>
        (foldl (\<lambda>s t. push_delta t s) s ts)\<lparr>textBuffer := r, streamDone := (streamDone s \<or> d)\<rparr>)"

text \<open>
  The texts decoded from a list of chunks, and the deltas that the outer loop emits when these
  texts are appended to the buffer \<open>b\<close> one after the other.
\<close>

fun decode_all :: "('d, 'n) platform \<Rightarrow> 'd \<Rightarrow> byte list list \<Rightarrow> jsstring list" where
  "decode_all pf d [] = []"
| "decode_all pf d (v # vs) = snd (decode pf d v) # decode_all pf (fst (decode pf d v)) vs"

fun run_events :: "('d, 'n) platform \<Rightarrow> jsstring \<Rightarrow> jsstring list \<Rightarrow> jsstring list" where
  "run_events pf b [] = []"
| "run_events pf b (t # ts) =
     fst (scan pf (b @ t)) @
       (if fst (snd (scan pf (b @ t))) then []
        else run_events pf (snd (snd (scan pf (b @ t)))) ts)"


section \<open>A concrete platform for the examples\<close>

text \<open>
  The UTF-8 decoder of the Encoding Standard, as \<^verbatim>\<open>new TextDecoder()\<close> runs it: the handler
  consumes one byte and yields the code points that are complete; a byte that cannot continue
  a sequence yields U+FFFD and is processed again as the start of a sequence; the first code
  point of the stream is dropped when it is the byte order mark; a code point beyond U+FFFF
  becomes a surrogate pair.
\<close>

record utf8_state =
  code_point :: nat
  bytes_seen :: nat
  bytes_needed :: nat
  lower_boundary :: nat
  upper_boundary :: nat
  bom_seen :: bool

definition utf8_initial :: utf8_state where
  "utf8_initial = \<lparr>code_point = 0, bytes_seen = 0, bytes_needed = 0,
                    lower_boundary = 0x80, upper_boundary = 0xBF, bom_seen = False\<rparr>"

definition utf8_reset :: "utf8_state \<Rightarrow> utf8_state" where
  "utf8_reset d = d\<lparr>code_point := 0, bytes_seen := 0, bytes_needed := 0,
                     lower_boundary := 0x80, upper_boundary := 0xBF\<rparr>"

definition utf8_lead :: "utf8_state \<Rightarrow> nat \<Rightarrow> utf8_state \<times> nat list" where
  "utf8_lead d b =
     (if b \<le> 0x7F then (d, [b])
      else if 0xC2 \<le> b \<and> b \<le> 0xDF then (d\<lparr>bytes_needed := 1, code_point := b mod 32\<rparr>, [])
      else if 0xE0 \<le> b \<and> b \<le> 0xEF then
        (d\<lparr>lower_boundary := (if b = 0xE0 then 0xA0 else lower_boundary d),
           upper_boundary := (if b = 0xED then 0x9F else upper_boundary d),
           bytes_needed := 2, code_point := b mod 16\<rparr>, [])
      else if 0xF0 \<le> b \<and> b \<le> 0xF4 then
        (d\<lparr>lower_boundary := (if b = 0xF0 then 0x90 else lower_boundary d),
           upper_boundary := (if b = 0xF4 then 0x8F else upper_boundary d),
           bytes_needed := 3, code_point := b mod 8\<rparr>, [])
      else (d, [0xFFFD]))"

definition utf8_handler :: "utf8_state \<Rightarrow> nat \<Rightarrow> utf8_state \<times> nat list" where
  "utf8_handler d b =
     (if bytes_needed d = 0 then utf8_lead d b
      else if b < lower_boundary d \<or> upper_boundary d < b then
        (case utf8_lead (utf8_reset d) b of (d', out) \<Rightarrow> (d', 0xFFFD # out))
      else
        let d1 = d\<lparr>lower_boundary := 0x80, upper_boundary := 0xBF,
                    code_point := code_point d * 64 + b mod 64,
                    bytes_seen := bytes_seen d + 1\<rparr>
        in if bytes_seen d1 \<noteq> bytes_needed d1 then (d1, [])
           else (utf8_reset d1, [code_point d1]))"

definition utf16_units :: "nat \<Rightarrow> jsstring" where
  "utf16_units cp =
     (if cp < 0x10000 then [of_nat cp]
      else [of_nat (0xD800 + (cp - 0x10000) div 0x400),
            of_nat (0xDC00 + (cp - 0x10000) mod 0x400)])"

fun utf8_serialize :: "utf8_state \<Rightarrow> nat list \<Rightarrow> utf8_state \<times> jsstring" where
  "utf8_serialize d [] = (d, [])"
| "utf8_serialize d (cp # cps) =
     (case utf8_serialize (d\<lparr>bom_seen := True\<rparr>) cps of
        (d', t) \<Rightarrow> (d', (if \<not> bom_seen d \<and> cp = 0xFEFF then [] else utf16_units cp) @ t))"

definition utf8_decode_byte :: "utf8_state \<Rightarrow> byte \<Rightarrow> utf8_state \<times> jsstring" where
  "utf8_decode_byte d b =
     (case utf8_handler d (unat b) of (d', out) \<Rightarrow> utf8_serialize d' out)"

text \<open>
  The value of \<^verbatim>\<open>{"choices":[{"delta":{"content":t}}]}\<close>, and a stand-in for \<^verbatim>\<open>JSON.parse\<close>
  that knows the payloads of the examples and rejects every other text. Numbers are integers
  here. No example converts a value that is not a string, and \<open>to_text\<close> knows \<^verbatim>\<open>true\<close> only.
\<close>

definition delta_json :: "jsstring \<Rightarrow> int json" where
  "delta_json t =
     JObj [(ascii ''choices'',
            JArr [JObj [(ascii ''delta'', JObj [(ascii ''content'', JStr t)])]])]"

definition demo_parse :: "jsstring \<Rightarrow> int json option" where
  \<open>demo_parse j =
     (if j = ascii ''{"choices":[{"delta":{"content":"Hel"}}]}''
        then Some (delta_json (ascii ''Hel''))
      else if j = ascii ''{"choices":[{"delta":{"content":"lo"}}]}''
        then Some (delta_json (ascii ''lo''))
      else if j = ascii ''{"choices":[{"delta":{"content":"'' @ [0xE9] @ ascii ''"}}]}''
        then Some (delta_json [0xE9])
      else if j = ascii ''null'' then Some JNull
      else None)\<close>

definition demo :: "(utf8_state, int) platform" where
  "demo = \<lparr>JSON_parse = demo_parse, decode_byte = utf8_decode_byte,
           number_truthy = (\<lambda>n. n \<noteq> 0),
           to_text = (\<lambda>v. case v of JBool True \<Rightarrow> Some (ascii ''true'') | _ \<Rightarrow> None)\<rparr>"

text \<open>The bytes of an ASCII text.\<close>

definition bytes :: "string \<Rightarrow> byte list" where
  "bytes s = map of_char s"

text \<open>The widget as it is mounted (lines 16 to 23), with a short greeting.\<close>

definition mounted :: "jsstring \<Rightarrow> chat" where
  "mounted text =
     \<lparr>messages = [\<lparr>role = Assistant, content = ascii ''Hi!''\<rparr>], input = text,
      loading = False, toasts = 0, requests = []\<rparr>"

text \<open>
  The streaming block of a request that followed the user message \<^verbatim>\<open>hi\<close>, at a moment when
  its buffer holds \<open>buf\<close> and nothing has been emitted yet; and two lines of a stream.
\<close>

definition waiting :: "jsstring \<Rightarrow> utf8_state stream_state" where
  "waiting buf =
     (start_stream utf8_initial [\<lparr>role = User, content = ascii ''hi''\<rparr>])\<lparr>textBuffer := buf\<rparr>"

definition bad_line :: jsstring where
  "bad_line = ascii ''data: {bad json''"

definition done_line :: jsstring where
  "done_line = ascii ''data: [DONE]''"

text \<open>
  The stream of the example of the specification: a first chunk with the delta \<^verbatim>\<open>Hel\<close>, a second
  chunk with the delta \<^verbatim>\<open>lo\<close> and the sentinel; the user message \<^verbatim>\<open>hi\<close>, an assistant message,
  and the state in which the streaming block ends on these chunks when the list held \<open>ms\<close>
  before the placeholder was appended.
\<close>

definition hel_chars :: string where
  \<open>hel_chars = ''data: {"choices":[{"delta":{"content":"Hel"}}]}''\<close>

definition hel_line :: jsstring where
  "hel_line = ascii hel_chars"

definition lo_chars :: string where
  \<open>lo_chars = ''data: {"choices":[{"delta":{"content":"lo"}}]}''\<close>

definition chunk1 :: "byte list" where
  "chunk1 = bytes hel_chars @ [0x0A]"

definition chunk2 :: "byte list" where
  "chunk2 = bytes lo_chars @ [0x0A] @ bytes ''data: [DONE]'' @ [0x0A]"

definition hi :: message where
  "hi = \<lparr>role = User, content = ascii ''hi''\<rparr>"

definition reply :: "jsstring \<Rightarrow> message" where
  "reply t = \<lparr>role = Assistant, content = t\<rparr>"

definition example_final :: "message list \<Rightarrow> utf8_state stream_state" where
  "example_final ms =
     \<lparr>textBuffer = [], streamDone = True, assistantContent = ascii ''Hello'',
      decoder = utf8_initial\<lparr>bom_seen := True\<rparr>,
      msgs = ms @ [reply (ascii ''Hello'')],
      deltas = [ascii ''Hel'', ascii ''lo''],
      history = (ms @ [reply (ascii ''Hel'')]) # (ms @ [reply (ascii ''Hello'')]) # [],
      reads = 2\<rparr>"

text \<open>
  A stream whose only delta is the letter U+00E9, cut into two chunks between the two bytes of
  its UTF-8 encoding; the line it carries; the decoder that has seen the first of the two bytes.
\<close>

definition e_acute_head :: "byte list" where
  \<open>e_acute_head = bytes ''data: {"choices":[{"delta":{"content":"'' @ [0xC3]\<close>

definition e_acute_tail :: "byte list" where
  \<open>e_acute_tail = [0xA9] @ bytes ''"}}]}'' @ [0x0A]\<close>

definition e_acute_line :: jsstring where
  \<open>e_acute_line = ascii ''data: {"choices":[{"delta":{"content":"'' @ [0xE9] @ ascii ''"}}]}''\<close>

definition utf8_pending :: utf8_state where
  "utf8_pending = \<lparr>code_point = 3, bytes_seen = 0, bytes_needed = 1,
                    lower_boundary = 0x80, upper_boundary = 0xBF, bom_seen = True\<rparr>"


section \<open>Basic facts\<close>

declare process_lines.simps [simp del]

lemma ascii_data: "ascii ''data: '' = [0x64, 0x61, 0x74, 0x61, 0x3A, 0x20]"
  by (simp add: ascii_def)

lemma ascii_colon: "ascii '':'' = [0x3A]"
  by (simp add: ascii_def)

lemma endsWith_single: "endsWith l [c] \<longleftrightarrow> l \<noteq> [] \<and> last l = c"
  by (cases l rule: rev_cases) (auto simp: endsWith_def)

lemma endsWith_CR: "endsWith l [CR] \<longleftrightarrow> l \<noteq> [] \<and> last l = CR"
  by (cases l rule: rev_cases) (auto simp: endsWith_def)

lemma is_ws_CR: "is_ws CR"
  by (simp add: is_ws_def CR_def)

lemma all_dropWhile: "(\<forall>x\<in>set (dropWhile P xs). P x) \<longleftrightarrow> (\<forall>x\<in>set xs. P x)"
  by (induction xs) auto

lemma trim_Nil_iff: "trim s = [] \<longleftrightarrow> (\<forall>c\<in>set s. is_ws c)"
  by (simp add: trim_def dropWhile_eq_Nil_conv all_dropWhile)

lemma trim_snoc_ws:
  assumes "is_ws c"
  shows "trim (s @ [c]) = trim s"
proof (cases "\<forall>x\<in>set s. is_ws x")
  case True
  with assms have "trim (s @ [c]) = []" "trim s = []"
    by (simp_all add: trim_Nil_iff)
  then show ?thesis by simp
next
  case False
  then have "dropWhile is_ws (s @ [c]) = dropWhile is_ws s @ [c]"
    by (auto simp: dropWhile_append1)
  with assms show ?thesis
    by (simp add: trim_def)
qed

lemma strip_cr_cases: "strip_cr l = l \<or> l = strip_cr l @ [CR]"
  by (cases l rule: rev_cases) (auto simp: strip_cr_def endsWith_CR)

lemma trim_strip_cr: "trim (strip_cr l) = trim l"
  using strip_cr_cases [of l] trim_snoc_ws [OF is_ws_CR, of "strip_cr l"] by auto

lemma data_snoc_CR: "ascii ''data: '' \<noteq> m @ [CR]"
proof
  assume "ascii ''data: '' = m @ [CR]"
  then have "last (ascii ''data: '') = last (m @ [CR])" by simp
  then show False by (simp add: ascii_data CR_def)
qed

lemma colon_snoc_CR: "ascii '':'' \<noteq> m @ [CR]"
proof
  assume "ascii '':'' = m @ [CR]"
  then have "last (ascii '':'') = last (m @ [CR])" by simp
  then show False by (simp add: ascii_colon CR_def)
qed

lemma startsWith_strip_cr_data:
  "startsWith (strip_cr l) (ascii ''data: '') \<longleftrightarrow> startsWith l (ascii ''data: '')"
proof -
  have "startsWith (m @ [CR]) (ascii ''data: '') \<longleftrightarrow> startsWith m (ascii ''data: '')" for m
    by (simp add: startsWith_def data_snoc_CR)
  then show ?thesis
    using strip_cr_cases [of l] by metis
qed

lemma startsWith_strip_cr_colon:
  "startsWith (strip_cr l) (ascii '':'') \<longleftrightarrow> startsWith l (ascii '':'')"
proof -
  have "startsWith (m @ [CR]) (ascii '':'') \<longleftrightarrow> startsWith m (ascii '':'')" for m
    by (simp add: startsWith_def colon_snoc_CR)
  then show ?thesis
    using strip_cr_cases [of l] by metis
qed

lemma data_not_comment:
  "startsWith l (ascii ''data: '') \<Longrightarrow> \<not> startsWith l (ascii '':'')"
  by (auto simp: startsWith_def ascii_data ascii_colon prefix_def)

lemma data_not_blank:
  "startsWith l (ascii ''data: '') \<Longrightarrow> trim l \<noteq> []"
  by (auto simp: startsWith_def ascii_data prefix_def trim_Nil_iff is_ws_def)

lemma drop6_strip_cr:
  assumes "startsWith l (ascii ''data: '')"
  shows "trim (drop 6 (strip_cr l)) = trim (drop 6 l)"
proof -
  have len: "length (ascii ''data: '') = 6" by (simp add: ascii_def)
  from strip_cr_cases [of l] show ?thesis
  proof
    assume "strip_cr l = l"
    then show ?thesis by simp
  next
    assume l: "l = strip_cr l @ [CR]"
    from assms have "startsWith (strip_cr l) (ascii ''data: '')"
      by (simp add: startsWith_strip_cr_data)
    then obtain y where y: "strip_cr l = ascii ''data: '' @ y"
      by (auto simp: startsWith_def prefix_def)
    have "drop 6 l = drop 6 (strip_cr l) @ [CR]"
      by (subst l) (simp add: y len)
    then show ?thesis
      by (simp add: trim_snoc_ws [OF is_ws_CR])
  qed
qed

lemma payload_strip_cr:
  "startsWith l (ascii ''data: '') \<Longrightarrow> payload (strip_cr l) = payload l"
  unfolding payload_def
  by (metis drop6_strip_cr startsWith_strip_cr_data)

lemma indexOf_front: "c \<notin> set l \<Longrightarrow> indexOf (l @ c # r) c = Some (length l)"
  by (induction l) auto

lemma indexOf_None: "indexOf xs c = None \<longleftrightarrow> c \<notin> set xs"
  by (induction xs) auto

lemma NL_strip_cr: "NL \<notin> set l \<Longrightarrow> NL \<notin> set (strip_cr l)"
  by (auto simp: strip_cr_def dest: in_set_butlastD)

lemma process_lines_front:
  "textBuffer s = l @ NL # r \<Longrightarrow> NL \<notin> set l \<Longrightarrow>
   process_lines pf s =
     (case line_body pf (s\<lparr>textBuffer := r\<rparr>) l of
        (Break, s') \<Rightarrow> s'
      | (Continue, s') \<Rightarrow> process_lines pf s')"
  by (subst process_lines.simps) (simp add: indexOf_front)

lemma process_lines_no_newline:
  "NL \<notin> set (textBuffer s) \<Longrightarrow> process_lines pf s = s"
  by (subst process_lines.simps) (simp add: indexOf_None [THEN iffD2])

lemma delta_text_SyntaxError:
  "JSON_parse pf j = None \<Longrightarrow> delta_text pf j = Inl SyntaxError"
  by (simp add: delta_text_def)

lemma line_body_ignored:
  "startsWith l (ascii '':'') \<or> trim l = [] \<Longrightarrow> line_body pf s l = (Continue, s)"
  by (auto simp: line_body_def Let_def startsWith_strip_cr_colon trim_strip_cr)

lemma line_body_data:
  assumes "startsWith l (ascii ''data: '')"
  shows "line_body pf s l =
     (if payload l = ascii ''[DONE]'' then (Break, s\<lparr>streamDone := True\<rparr>)
      else (case try_block pf (payload l) s of
              Inr s' \<Rightarrow> (Continue, s')
            | Inl e \<Rightarrow> (Break, s\<lparr>textBuffer := strip_cr l @ [NL] @ textBuffer s\<rparr>)))"
proof -
  from assms have d: "startsWith (strip_cr l) (ascii ''data: '')"
    by (simp add: startsWith_strip_cr_data)
  from d have "\<not> startsWith (strip_cr l) (ascii '':'')" "trim (strip_cr l) \<noteq> []"
    by (rule data_not_comment, rule data_not_blank)
  with d show ?thesis
    by (simp add: line_body_def Let_def payload_def)
qed

lemma line_body_done:
  "startsWith l (ascii ''data: '') \<Longrightarrow> payload l = ascii ''[DONE]'' \<Longrightarrow>
   line_body pf s l = (Break, s\<lparr>streamDone := True\<rparr>)"
  by (simp add: line_body_data)

lemma line_body_failed:
  "startsWith l (ascii ''data: '') \<Longrightarrow> payload l \<noteq> ascii ''[DONE]'' \<Longrightarrow>
   delta_text pf (payload l) = Inl e \<Longrightarrow>
   line_body pf s l = (Break, s\<lparr>textBuffer := strip_cr l @ [NL] @ textBuffer s\<rparr>)"
  by (simp add: line_body_data try_block_def)

lemma process_lines_failed:
  assumes "textBuffer s = l @ NL # r" "NL \<notin> set l"
    and "startsWith l (ascii ''data: '')" "payload l \<noteq> ascii ''[DONE]''"
    and "delta_text pf (payload l) = Inl e"
  shows "process_lines pf s = s\<lparr>textBuffer := strip_cr l @ NL # r\<rparr>"
  using assms by (simp add: process_lines_front line_body_failed)

lemma process_lines_done:
  assumes "textBuffer s = l @ NL # r" "NL \<notin> set l"
    and "startsWith l (ascii ''data: '')" "payload l = ascii ''[DONE]''"
  shows "process_lines pf s = s\<lparr>textBuffer := r, streamDone := True\<rparr>"
  using assms by (simp add: process_lines_front line_body_done)

lemma process_lines_ignored:
  assumes "textBuffer s = l @ NL # r" "NL \<notin> set l"
    and "startsWith l (ascii '':'') \<or> trim l = []"
  shows "process_lines pf s = process_lines pf (s\<lparr>textBuffer := r\<rparr>)"
  using assms by (simp add: process_lines_front line_body_ignored)

lemma read_loop_done: "streamDone s \<Longrightarrow> read_loop pf s vs e = Inr s"
  by (cases vs) simp_all

lemma decode_append:
  "decode pf d (a @ b) =
     (fst (decode pf (fst (decode pf d a)) b),
      snd (decode pf d a) @ snd (decode pf (fst (decode pf d a)) b))"
  by (induction a arbitrary: d) (auto split: prod.splits)

lemma read_loop_Cons:
  "\<not> streamDone s \<Longrightarrow>
   read_loop pf s (v # vs) e =
     read_loop pf (process_lines pf
        (s\<lparr>reads := reads s + 1, decoder := fst (decode pf (decoder s) v),
           textBuffer := textBuffer s @ snd (decode pf (decoder s) v)\<rparr>)) vs e"
  by (simp split: prod.splits)

lemma read_loop_Nil:
  "\<not> streamDone s \<Longrightarrow>
   read_loop pf s [] e =
     (case e of Closed \<Rightarrow> Inr (s\<lparr>reads := reads s + 1\<rparr>)
              | Aborted \<Rightarrow> Inl (s\<lparr>reads := reads s + 1\<rparr>))"
  by simp

declare read_loop.simps [simp del]

lemma stalled_forever:
  assumes "textBuffer s = l @ NL # r" "NL \<notin> set l"
    and "startsWith l (ascii ''data: '')" "payload l \<noteq> ascii ''[DONE]''"
    and "delta_text pf (payload l) = Inl err" "\<not> streamDone s"
  shows "final_state (read_loop pf s vs e) =
           s\<lparr>textBuffer := (strip_cr ^^ length vs) l @ NL # r @ snd (decode pf (decoder s) (concat vs)),
             decoder := fst (decode pf (decoder s) (concat vs)),
             reads := reads s + length vs + 1\<rparr>"
  using assms
proof (induction vs arbitrary: s l r)
  case Nil
  then show ?case
    by (cases e) (simp_all add: final_state_def read_loop_Nil)
next
  case (Cons v vs)
  let ?d = "fst (decode pf (decoder s) v)"
  let ?t = "snd (decode pf (decoder s) v)"
  let ?s1 = "s\<lparr>reads := reads s + 1, decoder := ?d, textBuffer := textBuffer s @ ?t\<rparr>"
  let ?s2 = "?s1\<lparr>textBuffer := strip_cr l @ NL # (r @ ?t)\<rparr>"
  have buf: "textBuffer ?s1 = l @ NL # (r @ ?t)"
    using Cons.prems(1) by simp
  have p: "process_lines pf ?s1 = ?s2"
    by (rule process_lines_failed [OF buf Cons.prems(2-5)])
  have step: "read_loop pf s (v # vs) e = read_loop pf ?s2 vs e"
    using read_loop_Cons [OF Cons.prems(6), of pf v vs e] by (simp only: p)
  have ih: "final_state (read_loop pf ?s2 vs e) =
      ?s2\<lparr>textBuffer := (strip_cr ^^ length vs) (strip_cr l) @ NL # (r @ ?t)
                @ snd (decode pf (decoder ?s2) (concat vs)),
           decoder := fst (decode pf (decoder ?s2) (concat vs)),
           reads := reads ?s2 + length vs + 1\<rparr>"
  proof (rule Cons.IH)
    show "textBuffer ?s2 = strip_cr l @ NL # (r @ ?t)" by simp
    show "NL \<notin> set (strip_cr l)" using Cons.prems(2) by (rule NL_strip_cr)
    show "startsWith (strip_cr l) (ascii ''data: '')"
      using Cons.prems(3) by (simp add: startsWith_strip_cr_data)
    show "payload (strip_cr l) \<noteq> ascii ''[DONE]''"
      using Cons.prems(3,4) by (simp add: payload_strip_cr)
    show "delta_text pf (payload (strip_cr l)) = Inl err"
      using Cons.prems(3,5) by (simp add: payload_strip_cr)
    show "\<not> streamDone ?s2" using Cons.prems(6) by simp
  qed
  show ?case
    by (simp only: step ih) (simp add: decode_append funpow_swap1)
qed

lemmas ex_defs = waiting_def bad_line_def done_line_def hel_line_def start_stream_def
lemmas str_defs = ascii_def NL_def CR_def startsWith_def payload_def strip_cr_def endsWith_single
  trim_def is_ws_def


section \<open>The reply while it streams\<close>

lemma set_last_message_length: "length (set_last_message c prev) = length prev"
  by (simp add: set_last_message_def)

lemma set_last_message_butlast: "butlast (set_last_message c prev) = butlast prev"
  by (simp add: set_last_message_def butlast_list_update)

lemma set_last_message_last:
  "prev \<noteq> [] \<Longrightarrow> last (set_last_message c prev) = \<lparr>role = Assistant, content = c\<rparr>"
  by (simp add: set_last_message_def last_list_update)

lemma set_last_message_nth:
  "i < length prev - 1 \<Longrightarrow> set_last_message c prev ! i = prev ! i"
  by (simp add: set_last_message_def)

lemma successively_snoc:
  "successively P (x # xs @ [y]) \<longleftrightarrow> successively P (x # xs) \<and> P (last (x # xs)) y"
  using successively_append_iff [of P "x # xs" "[y]"] by auto

lemma reply_inv_push_delta:
  assumes "reply_inv m0 s"
  shows "reply_inv m0 (push_delta t s)"
proof -
  let ?ac = "assistantContent s @ t"
  let ?new = "set_last_message ?ac (msgs s)"
  from assms have ne: "msgs s \<noteq> []"
    and la: "last (msgs s) = \<lparr>role = Assistant, content = assistantContent s\<rparr>"
    and ac: "assistantContent s = concat (deltas s)"
    and len: "length (msgs s) = length m0" and bl: "butlast (msgs s) = butlast m0"
    and lh: "last (m0 # history s) = msgs s"
    and g: "successively grows (m0 # history s)"
    and o: "successively only_last_replaced (m0 # history s)"
    by (simp_all add: reply_inv_def)
  have new_ne: "?new \<noteq> []"
    using ne set_last_message_length [of ?ac "msgs s"] by (metis length_0_conv)
  have g1: "grows (msgs s) ?new"
    by (simp add: grows_def la set_last_message_last [OF ne])
  have o1: "only_last_replaced (msgs s) ?new"
    by (simp add: only_last_replaced_def set_last_message_length set_last_message_butlast)
  have g2: "successively grows (m0 # history s @ [?new])"
    unfolding successively_snoc using g g1 lh by simp
  have o2: "successively only_last_replaced (m0 # history s @ [?new])"
    unfolding successively_snoc using o o1 lh by simp
  show ?thesis
    unfolding reply_inv_def push_delta_def Let_def
    using new_ne g2 o2 ac len bl
    by (simp add: set_last_message_last [OF ne] set_last_message_length set_last_message_butlast)
qed

lemma reply_inv_frame:
  "reply_inv m0 (s\<lparr>textBuffer := b\<rparr>) = reply_inv m0 s"
  "reply_inv m0 (s\<lparr>streamDone := f\<rparr>) = reply_inv m0 s"
  "reply_inv m0 (s\<lparr>decoder := d\<rparr>) = reply_inv m0 s"
  "reply_inv m0 (s\<lparr>reads := n\<rparr>) = reply_inv m0 s"
  by (simp_all add: reply_inv_def)

lemma reply_inv_line_body:
  "reply_inv m0 s \<Longrightarrow> line_body pf s l = (f, s') \<Longrightarrow> reply_inv m0 s'"
  by (auto simp: line_body_def Let_def try_block_def reply_inv_frame reply_inv_push_delta
           split: if_splits sum.splits option.splits)

lemma reply_inv_process_lines:
  "reply_inv m0 s \<Longrightarrow> reply_inv m0 (process_lines pf s)"
proof (induction pf s rule: process_lines.induct)
  case (1 pf s)
  show ?case
  proof (cases "indexOf (textBuffer s) NL")
    case None
    then show ?thesis
      using "1.prems" by (subst process_lines.simps) simp
  next
    case (Some i)
    obtain f s' where lb: "line_body pf (s\<lparr>textBuffer := drop (i + 1) (textBuffer s)\<rparr>)
                               (take i (textBuffer s)) = (f, s')"
      by (cases "line_body pf (s\<lparr>textBuffer := drop (i + 1) (textBuffer s)\<rparr>)
                               (take i (textBuffer s))") 
    have inv': "reply_inv m0 s'"
      using reply_inv_line_body [OF _ lb] "1.prems" by (simp add: reply_inv_frame)
    show ?thesis
    proof (cases f)
      case Break
      then show ?thesis
        using Some lb inv' by (subst process_lines.simps) simp
    next
      case Continue
      have "reply_inv m0 (process_lines pf s')"
        using "1.IH" [OF Some lb [symmetric] Continue inv'] .
      then show ?thesis
        using Some lb Continue by (subst process_lines.simps) simp
    qed
  qed
qed

lemma reply_inv_read_loop:
  "reply_inv m0 s \<Longrightarrow> reply_inv m0 (final_state (read_loop pf s vs e))"
proof (induction vs arbitrary: s)
  case Nil
  then show ?case
    by (cases "streamDone s"; cases e)
       (simp_all add: read_loop_done read_loop_Nil final_state_def reply_inv_frame)
next
  case (Cons v vs)
  show ?case
  proof (cases "streamDone s")
    case True
    then show ?thesis
      using Cons.prems by (simp add: read_loop_done final_state_def)
  next
    case False
    show ?thesis
      unfolding read_loop_Cons [OF False]
      by (rule Cons.IH, rule reply_inv_process_lines) (simp add: reply_inv_frame Cons.prems)
  qed
qed

lemma reply_inv_start: "reply_inv (ms @ [\<lparr>role = Assistant, content = []\<rparr>]) (start_stream d0 ms)"
  by (simp add: reply_inv_def start_stream_def)

lemma final_reply:
  assumes "reply_inv (ms @ [p]) s"
  shows "msgs s = ms @ [\<lparr>role = Assistant, content = concat (deltas s)\<rparr>]"
proof -
  from assms have "msgs s \<noteq> []" "butlast (msgs s) = ms"
    "last (msgs s) = \<lparr>role = Assistant, content = concat (deltas s)\<rparr>"
    by (simp_all add: reply_inv_def)
  then show ?thesis
    by (metis append_butlast_last_id)
qed

lemma process_lines_delta:
  assumes "textBuffer s = l @ NL # r" "NL \<notin> set l"
    and "startsWith l (ascii ''data: '')" "payload l \<noteq> ascii ''[DONE]''"
    and "delta_text pf (payload l) = Inr (Some t)"
  shows "process_lines pf s = process_lines pf (push_delta t (s\<lparr>textBuffer := r\<rparr>))"
  using assms by (simp add: process_lines_front line_body_data try_block_def)

lemma process_lines_no_delta:
  assumes "textBuffer s = l @ NL # r" "NL \<notin> set l"
    and "startsWith l (ascii ''data: '')" "payload l \<noteq> ascii ''[DONE]''"
    and "delta_text pf (payload l) = Inr None"
  shows "process_lines pf s = process_lines pf (s\<lparr>textBuffer := r\<rparr>)"
  using assms by (simp add: process_lines_front line_body_data try_block_def)

lemma unat_of_char: "unat (of_char c :: byte) = of_char c"
proof -
  have "unat (of_nat (of_char c) :: byte) = of_char c mod 256"
    by (simp add: unat_of_nat)
  then show ?thesis
    by (simp add: of_nat_of_char)
qed

lemma utf8_decode_ascii_byte:
  assumes "bytes_needed d = 0" "(of_char c :: nat) < 128"
  shows "utf8_decode_byte d (of_char c) = (d\<lparr>bom_seen := True\<rparr>, [of_char c])"
  using assms
  by (simp add: utf8_decode_byte_def unat_of_char utf8_handler_def utf8_lead_def utf16_units_def
                of_nat_of_char)

lemma demo_decode_ascii:
  assumes "bytes_needed d = 0" "\<forall>c\<in>set cs. (of_char c :: nat) < 128"
  shows "decode demo d (bytes cs) = ((if cs = [] then d else d\<lparr>bom_seen := True\<rparr>), ascii cs)"
  using assms
proof (induction cs arbitrary: d)
  case Nil
  then show ?case by (simp add: bytes_def ascii_def)
next
  case (Cons c cs)
  have b: "decode_byte demo d (of_char c) = (d\<lparr>bom_seen := True\<rparr>, [of_char c])"
    using Cons.prems by (simp add: demo_def utf8_decode_ascii_byte)
  have ih: "decode demo (d\<lparr>bom_seen := True\<rparr>) (bytes cs)
      = ((if cs = [] then d\<lparr>bom_seen := True\<rparr> else d\<lparr>bom_seen := True\<rparr>), ascii cs)"
    using Cons.IH [of "d\<lparr>bom_seen := True\<rparr>"] Cons.prems by simp
  show ?case
    using b ih by (simp add: bytes_def ascii_def)
qed

lemma demo_decode_byte_NL:
  "bytes_needed d = 0 \<Longrightarrow> decode_byte demo d 0x0A = (d\<lparr>bom_seen := True\<rparr>, [NL])"
  by (simp add: demo_def utf8_decode_byte_def utf8_handler_def utf8_lead_def utf16_units_def NL_def)


section \<open>The example stream\<close>

lemma decode_chunk1:
  "decode demo utf8_initial chunk1 = (utf8_initial\<lparr>bom_seen := True\<rparr>, ascii hel_chars @ [NL])"
  by (simp add: chunk1_def decode_append demo_decode_ascii demo_decode_byte_NL utf8_initial_def hel_chars_def)

lemma decode_chunk2:
  "decode demo (utf8_initial\<lparr>bom_seen := True\<rparr>) chunk2 =
     (utf8_initial\<lparr>bom_seen := True\<rparr>, ascii lo_chars @ [NL] @ ascii ''data: [DONE]'' @ [NL])"
  by (simp add: chunk2_def decode_append demo_decode_ascii demo_decode_byte_NL utf8_initial_def lo_chars_def)

lemma delta_hel: "delta_text demo (payload (ascii hel_chars)) = Inr (Some (ascii ''Hel''))"
  by (simp add: hel_chars_def str_defs delta_text_def demo_def demo_parse_def delta_json_def
        delta_content_def opt_member_def)

lemma delta_lo: "delta_text demo (payload (ascii lo_chars)) = Inr (Some (ascii ''lo''))"
  by (simp add: lo_chars_def str_defs delta_text_def demo_def demo_parse_def delta_json_def
        delta_content_def opt_member_def)

lemma set_last_message_snoc: "set_last_message c (ms @ [m]) = ms @ [reply c]"
  by (simp add: set_last_message_def reply_def)

lemma hel_ok:
  "NL \<notin> set (ascii hel_chars)" "startsWith (ascii hel_chars) (ascii ''data: '')"
  "payload (ascii hel_chars) \<noteq> ascii ''[DONE]''"
  by (simp_all add: hel_chars_def str_defs)

lemma lo_ok:
  "NL \<notin> set (ascii lo_chars)" "startsWith (ascii lo_chars) (ascii ''data: '')"
  "payload (ascii lo_chars) \<noteq> ascii ''[DONE]''"
  by (simp_all add: lo_chars_def str_defs)

lemma done_ok:
  "NL \<notin> set done_line" "startsWith done_line (ascii ''data: '')"
  "payload done_line = ascii ''[DONE]''"
  by (simp_all add: done_line_def str_defs)

lemma example_run:
  "read_loop demo (start_stream utf8_initial ms) [chunk1, chunk2] Closed = Inr (example_final ms)"
proof -
  let ?dB = "utf8_initial\<lparr>bom_seen := True\<rparr>"
  define s1 where "s1 = (start_stream utf8_initial ms)
      \<lparr>reads := 1, decoder := ?dB, textBuffer := ascii hel_chars @ NL # []\<rparr>"
  define s2 where "s2 = push_delta (ascii ''Hel'') (s1\<lparr>textBuffer := []\<rparr>)"
  define s3 where "s3 = s2\<lparr>reads := Suc (Suc 0), decoder := ?dB,
      textBuffer := ascii lo_chars @ NL # (done_line @ NL # [])\<rparr>"
  define s4 where "s4 = push_delta (ascii ''lo'') (s3\<lparr>textBuffer := done_line @ NL # []\<rparr>)"
  have r1: "read_loop demo (start_stream utf8_initial ms) [chunk1, chunk2] Closed
            = read_loop demo (process_lines demo s1) [chunk2] Closed"
    by (simp add: read_loop_Cons start_stream_def decode_chunk1 s1_def)
  have "process_lines demo s1 = process_lines demo s2"
    unfolding s2_def
    by (rule process_lines_delta [OF _ hel_ok delta_hel]) (simp add: s1_def)
  also have "\<dots> = s2"
    by (rule process_lines_no_newline) (simp add: s2_def push_delta_textBuffer)
  finally have p1: "process_lines demo s1 = s2" .
  have nd2: "\<not> streamDone s2"
    by (simp add: s2_def s1_def push_delta_def Let_def start_stream_def)
  have d2: "decoder s2 = ?dB" "textBuffer s2 = []" "reads s2 = 1"
    by (simp_all add: s2_def s1_def push_delta_def Let_def)
  have r2: "read_loop demo s2 [chunk2] Closed = read_loop demo (process_lines demo s3) [] Closed"
    by (simp add: read_loop_Cons [OF nd2] d2 decode_chunk2 s3_def done_line_def)
  have "process_lines demo s3 = process_lines demo s4"
    unfolding s4_def
    by (rule process_lines_delta [OF _ lo_ok delta_lo]) (simp add: s3_def)
  also have "\<dots> = s4\<lparr>textBuffer := [], streamDone := True\<rparr>"
    by (rule process_lines_done [OF _ done_ok]) (simp add: s4_def push_delta_textBuffer)
  finally have p3: "process_lines demo s3 = s4\<lparr>textBuffer := [], streamDone := True\<rparr>" .
  have fin: "s4\<lparr>textBuffer := [], streamDone := True\<rparr> = example_final ms"
    by (simp add: s4_def s3_def s2_def s1_def push_delta_def Let_def set_last_message_snoc
          start_stream_def example_final_def ascii_def)
  show ?thesis
    by (simp add: r1 p1 r2 p3 fin read_loop_done example_final_def)
qed

lemma sendMessage_stream:
  assumes "trim (input st) \<noteq> []" "\<not> loading st"
  shows "sendMessage pf d0 (Response True (Some r)) st =
     (let userMessage = \<lparr>role = User, content = input st\<rparr>;
          st1 = st\<lparr>messages := messages st @ [userMessage], input := [], loading := True,
                   requests := requests st @ [messages st @ [userMessage]]\<rparr>
      in case read_loop pf (start_stream d0 (messages st @ [userMessage])) (chunks r) (ending r) of
           Inl s \<Rightarrow> finally_block (catch_block (st1\<lparr>messages := msgs s\<rparr>))
         | Inr s \<Rightarrow> finally_block (st1\<lparr>messages := msgs s\<rparr>))"
  using assms by (simp add: sendMessage_def Let_def)

lemma stream_reply_inv:
  "reply_inv (ms @ [\<lparr>role = Assistant, content = []\<rparr>])
     (final_state (read_loop pf (start_stream d0 ms) vs e))"
  by (rule reply_inv_read_loop) (rule reply_inv_start)



section \<open>The deltas of a stream\<close>

lemma line_event_strip_cr: "line_event pf (strip_cr l) = line_event pf l"
  by (simp add: line_event_def startsWith_strip_cr_colon trim_strip_cr startsWith_strip_cr_data
        payload_strip_cr cong: if_cong)

lemma line_body_event:
  "line_body pf s l =
     (case line_event pf l of
        Ignored \<Rightarrow> (Continue, s)
      | End \<Rightarrow> (Break, s\<lparr>streamDone := True\<rparr>)
      | Failed \<Rightarrow> (Break, s\<lparr>textBuffer := strip_cr l @ [NL] @ textBuffer s\<rparr>)
      | Delta t \<Rightarrow> (Continue, push_delta t s))"
proof (cases "startsWith l (ascii ''data: '')")
  case True
  then have "\<not> startsWith l (ascii '':'')" "trim l \<noteq> []"
    by (rule data_not_comment, rule data_not_blank)
  with True show ?thesis
    by (simp add: line_body_data line_event_def try_block_def split: sum.splits option.splits)
next
  case False
  then have "\<not> startsWith (strip_cr l) (ascii ''data: '')"
    by (simp add: startsWith_strip_cr_data)
  with False show ?thesis
    by (simp add: line_body_def Let_def line_event_def)
qed

lemma scan_no_newline: "NL \<notin> set buf \<Longrightarrow> scan pf buf = ([], False, buf)"
  by (subst scan.simps) (simp add: indexOf_None [THEN iffD2])

lemma scan_front:
  "NL \<notin> set l \<Longrightarrow>
   scan pf (l @ NL # r) =
     (case line_event pf l of
        Ignored \<Rightarrow> scan pf r
      | End \<Rightarrow> ([], True, r)
      | Failed \<Rightarrow> ([], False, strip_cr l @ NL # r)
      | Delta t \<Rightarrow> (case scan pf r of (ts, d, r') \<Rightarrow> (t # ts, d, r')))"
  by (subst scan.simps) (simp add: indexOf_front split: line_event.splits)

lemma indexOf_split:
  "indexOf buf c = Some i \<Longrightarrow> buf = take i buf @ c # drop (i + 1) buf \<and> c \<notin> set (take i buf)"
proof (induction buf arbitrary: i)
  case Nil
  then show ?case by simp
next
  case (Cons x xs)
  then show ?case
    by (cases "x = c") (auto split: if_splits)
qed

lemma push_delta_commute:
  "push_delta t (s\<lparr>textBuffer := b\<rparr>) = (push_delta t s)\<lparr>textBuffer := b\<rparr>"
  by (simp add: push_delta_def Let_def)

lemma foldl_push_frame:
  "foldl (\<lambda>s t. push_delta t s) (s\<lparr>textBuffer := b\<rparr>) ts
     = (foldl (\<lambda>s t. push_delta t s) s ts)\<lparr>textBuffer := b\<rparr>"
  by (induction ts arbitrary: s) (simp_all add: push_delta_commute)

lemma foldl_push_fields:
  "streamDone (foldl (\<lambda>s t. push_delta t s) s ts) = streamDone s"
  "deltas (foldl (\<lambda>s t. push_delta t s) s ts) = deltas s @ ts"
  "decoder (foldl (\<lambda>s t. push_delta t s) s ts) = decoder s"
  "reads (foldl (\<lambda>s t. push_delta t s) s ts) = reads s"
  by (induction ts arbitrary: s) (simp_all add: push_delta_def Let_def)

lemma replay_fields:
  "textBuffer (replay (ts, d, r) s) = r"
  "streamDone (replay (ts, d, r) s) = (streamDone s \<or> d)"
  "deltas (replay (ts, d, r) s) = deltas s @ ts"
  "decoder (replay (ts, d, r) s) = decoder s"
  by (simp_all add: replay_def foldl_push_fields)

lemma process_lines_scan:
  "process_lines pf s = replay (scan pf (textBuffer s)) s"
proof (induction pf s rule: process_lines.induct)
  case (1 pf s)
  show ?case
  proof (cases "indexOf (textBuffer s) NL")
    case None
    then have n: "NL \<notin> set (textBuffer s)"
      by (simp add: indexOf_None)
    show ?thesis
      by (simp add: process_lines_no_newline [OF n] scan_no_newline [OF n] replay_def)
  next
    case (Some i)
    let ?l = "take i (textBuffer s)"
    let ?r = "drop (i + 1) (textBuffer s)"
    from indexOf_split [OF Some] have buf: "textBuffer s = ?l @ NL # ?r" and nl: "NL \<notin> set ?l"
      by simp_all
    have sc: "scan pf (textBuffer s) =
       (case line_event pf ?l of
          Ignored \<Rightarrow> scan pf ?r
        | End \<Rightarrow> ([], True, ?r)
        | Failed \<Rightarrow> ([], False, strip_cr ?l @ NL # ?r)
        | Delta t \<Rightarrow> (case scan pf ?r of (ts, d, r') \<Rightarrow> (t # ts, d, r')))"
      using scan_front [OF nl, of pf ?r] buf by simp
    have pl: "process_lines pf s =
       (case line_body pf (s\<lparr>textBuffer := ?r\<rparr>) ?l of
          (Break, s') \<Rightarrow> s'
        | (Continue, s') \<Rightarrow> process_lines pf s')"
      by (rule process_lines_front [OF buf nl])
    show ?thesis
    proof (cases "line_event pf ?l")
      case Ignored
      then have lb: "line_body pf (s\<lparr>textBuffer := ?r\<rparr>) ?l = (Continue, s\<lparr>textBuffer := ?r\<rparr>)"
        by (simp add: line_body_event)
      have p: "process_lines pf s = process_lines pf (s\<lparr>textBuffer := ?r\<rparr>)"
        by (simp only: pl lb prod.case flow.case)
      have q: "scan pf (textBuffer s) = scan pf ?r"
        by (simp only: sc Ignored line_event.case)
      have ih: "process_lines pf (s\<lparr>textBuffer := ?r\<rparr>)
            = replay (scan pf ?r) (s\<lparr>textBuffer := ?r\<rparr>)"
        using "1.IH" [OF Some lb [symmetric]] by simp
      show ?thesis
        unfolding p q ih by (simp add: replay_def foldl_push_frame split: prod.splits)
    next
      case End
      then have lb: "line_body pf (s\<lparr>textBuffer := ?r\<rparr>) ?l
                     = (Break, s\<lparr>textBuffer := ?r, streamDone := True\<rparr>)"
        by (simp add: line_body_event)
      have p: "process_lines pf s = s\<lparr>textBuffer := ?r, streamDone := True\<rparr>"
        by (simp only: pl lb prod.case flow.case)
      have q: "scan pf (textBuffer s) = ([], True, ?r)"
        by (simp only: sc End line_event.case)
      show ?thesis
        unfolding p q by (simp add: replay_def)
    next
      case Failed
      then have lb: "line_body pf (s\<lparr>textBuffer := ?r\<rparr>) ?l
                     = (Break, s\<lparr>textBuffer := strip_cr ?l @ NL # ?r\<rparr>)"
        by (simp add: line_body_event)
      have p: "process_lines pf s = s\<lparr>textBuffer := strip_cr ?l @ NL # ?r\<rparr>"
        by (simp only: pl lb prod.case flow.case)
      have q: "scan pf (textBuffer s) = ([], False, strip_cr ?l @ NL # ?r)"
        by (simp only: sc Failed line_event.case)
      show ?thesis
        unfolding p q by (simp add: replay_def)
    next
      case (Delta t)
      let ?s1 = "push_delta t (s\<lparr>textBuffer := ?r\<rparr>)"
      from Delta have lb: "line_body pf (s\<lparr>textBuffer := ?r\<rparr>) ?l = (Continue, ?s1)"
        by (simp add: line_body_event)
      have p: "process_lines pf s = process_lines pf ?s1"
        by (simp only: pl lb prod.case flow.case)
      obtain ts d r' where sr: "scan pf ?r = (ts, d, r')"
        by (cases "scan pf ?r") auto
      have q: "scan pf (textBuffer s) = (t # ts, d, r')"
        by (simp only: sc Delta line_event.case sr prod.case)
      have tb: "textBuffer ?s1 = ?r"
        by (simp add: push_delta_textBuffer)
      have ih: "process_lines pf ?s1 = replay (ts, d, r') ?s1"
        using "1.IH" [OF Some lb [symmetric]] by (simp only: tb sr)
      have sd: "streamDone ?s1 = streamDone s" "streamDone (push_delta t s) = streamDone s"
        by (simp_all add: push_delta_def Let_def)
      show ?thesis
        unfolding p q ih
        by (simp add: replay_def push_delta_commute foldl_push_frame sd)
    qed
  qed
qed

lemma scan_append:
  "fst (scan pf (b @ u)) =
     fst (scan pf b) @
       (if fst (snd (scan pf b)) then [] else fst (scan pf (snd (snd (scan pf b)) @ u)))"
proof (induction pf b rule: scan.induct)
  case (1 pf buf)
  show ?case
  proof (cases "indexOf buf NL")
    case None
    then have n: "NL \<notin> set buf"
      by (simp add: indexOf_None)
    show ?thesis
      by (simp add: scan_no_newline [OF n])
  next
    case (Some i)
    let ?l = "take i buf"
    let ?r = "drop (i + 1) buf"
    from indexOf_split [OF Some] have buf: "buf = ?l @ NL # ?r" and nl: "NL \<notin> set ?l"
      by simp_all
    have bu: "buf @ u = ?l @ NL # (?r @ u)"
      by (subst buf) simp
    note s1 = scan_front [OF nl, of pf ?r]
    note s2 = scan_front [OF nl, of pf "?r @ u"]
    show ?thesis
    proof (cases "line_event pf ?l")
      case Ignored
      have q1: "scan pf buf = scan pf ?r"
        by (subst buf) (simp only: s1 Ignored line_event.case)
      have q2: "scan pf (buf @ u) = scan pf (?r @ u)"
        by (simp only: bu s2 Ignored line_event.case)
      show ?thesis
        unfolding q1 q2 by (rule "1.IH" (1) [OF Some Ignored])
    next
      case End
      have q1: "scan pf buf = ([], True, ?r)"
        by (subst buf) (simp only: s1 End line_event.case)
      have q2: "scan pf (buf @ u) = ([], True, ?r @ u)"
        by (simp only: bu s2 End line_event.case)
      show ?thesis
        unfolding q1 q2 by simp
    next
      case Failed
      have q1: "scan pf buf = ([], False, strip_cr ?l @ NL # ?r)"
        by (subst buf) (simp only: s1 Failed line_event.case)
      have q2: "scan pf (buf @ u) = ([], False, strip_cr ?l @ NL # (?r @ u))"
        by (simp only: bu s2 Failed line_event.case)
      have f: "line_event pf (strip_cr ?l) = Failed"
        by (simp only: line_event_strip_cr Failed)
      have q3: "scan pf (strip_cr ?l @ NL # (?r @ u)) = ([], False, strip_cr (strip_cr ?l) @ NL # (?r @ u))"
        by (simp only: scan_front [OF NL_strip_cr [OF nl]] f line_event.case)
      have e: "fst (scan pf ((strip_cr ?l @ NL # ?r) @ u)) = []"
        using q3 by simp
      show ?thesis
        unfolding q1 q2 by (simp only: fst_conv snd_conv e if_False append_Nil)
    next
      case (Delta t)
      obtain ts d r' where sr: "scan pf ?r = (ts, d, r')"
        by (cases "scan pf ?r") auto
      obtain ts2 d2 r2 where sr2: "scan pf (?r @ u) = (ts2, d2, r2)"
        by (cases "scan pf (?r @ u)") auto
      have q1: "scan pf buf = (t # ts, d, r')"
        by (subst buf) (simp only: s1 Delta line_event.case sr prod.case)
      have q2: "scan pf (buf @ u) = (t # ts2, d2, r2)"
        by (simp only: bu s2 Delta line_event.case sr2 prod.case)
      have ih: "fst (scan pf (?r @ u)) =
          fst (scan pf ?r) @
           (if fst (snd (scan pf ?r)) then [] else fst (scan pf (snd (snd (scan pf ?r)) @ u)))"
        by (rule "1.IH" (2) [OF Some Delta])
      have ih': "ts2 = ts @ (if d then [] else fst (scan pf (r' @ u)))"
        using ih unfolding sr sr2 by (simp only: fst_conv snd_conv)
      show ?thesis
        unfolding q1 q2 by (simp add: ih')
    qed
  qed
qed

lemma concat_decode_all: "concat (decode_all pf d vs) = snd (decode pf d (concat vs))"
  by (induction vs arbitrary: d) (simp_all add: decode_append)

lemma run_events_one_text:
  "run_events pf b (t # ts) = fst (scan pf (b @ t @ concat ts))"
proof (induction ts arbitrary: b t)
  case Nil
  then show ?case by simp
next
  case (Cons t' ts)
  have "run_events pf b (t # t' # ts) =
      fst (scan pf (b @ t)) @
       (if fst (snd (scan pf (b @ t))) then []
        else fst (scan pf (snd (snd (scan pf (b @ t))) @ t' @ concat ts)))"
    by (simp only: run_events.simps(2) [of pf b t] Cons.IH)
  also have "\<dots> = fst (scan pf ((b @ t) @ t' @ concat ts))"
    by (rule scan_append [symmetric])
  finally show ?case by simp
qed

lemma read_loop_deltas:
  "\<not> streamDone s \<Longrightarrow>
   deltas (final_state (read_loop pf s vs e))
     = deltas s @ run_events pf (textBuffer s) (decode_all pf (decoder s) vs)"
proof (induction vs arbitrary: s)
  case Nil
  then show ?case
    by (cases e) (simp_all add: read_loop_Nil final_state_def)
next
  case (Cons v vs)
  let ?t = "snd (decode pf (decoder s) v)"
  let ?d = "fst (decode pf (decoder s) v)"
  let ?s1 = "s\<lparr>reads := reads s + 1, decoder := ?d, textBuffer := textBuffer s @ ?t\<rparr>"
  let ?s2 = "process_lines pf ?s1"
  obtain ts dn r where sc: "scan pf (textBuffer s @ ?t) = (ts, dn, r)"
    by (cases "scan pf (textBuffer s @ ?t)") auto
  have s2: "?s2 = replay (ts, dn, r) ?s1"
    using process_lines_scan [of pf ?s1] sc by simp
  have f: "textBuffer ?s2 = r" "streamDone ?s2 = dn" "deltas ?s2 = deltas s @ ts" "decoder ?s2 = ?d"
    unfolding s2 using Cons.prems by (simp_all add: replay_fields)
  have step: "read_loop pf s (v # vs) e = read_loop pf ?s2 vs e"
    by (rule read_loop_Cons [OF Cons.prems])
  show ?case
  proof (cases dn)
    case True
    then have "read_loop pf ?s2 vs e = Inr ?s2"
      using f(2) by (simp add: read_loop_done)
    then show ?thesis
      unfolding step using True f(3) sc by (simp add: final_state_def)
  next
    case False
    then have nd: "\<not> streamDone ?s2"
      using f(2) by simp
    have "deltas (final_state (read_loop pf ?s2 vs e))
          = deltas ?s2 @ run_events pf (textBuffer ?s2) (decode_all pf (decoder ?s2) vs)"
      by (rule Cons.IH [OF nd])
    then show ?thesis
      unfolding step f using False sc by simp
  qed
qed

lemma stream_deltas:
  "deltas (final_state (read_loop pf (start_stream d0 ms) vs e))
     = fst (scan pf (snd (decode pf d0 (concat vs))))"
proof -
  have nd: "\<not> streamDone (start_stream d0 ms)"
    by (simp add: start_stream_def)
  have "deltas (final_state (read_loop pf (start_stream d0 ms) vs e))
        = run_events pf [] (decode_all pf d0 vs)"
    using read_loop_deltas [OF nd, of pf vs e] by (simp add: start_stream_def)
  also have "\<dots> = fst (scan pf (snd (decode pf d0 (concat vs))))"
  proof (cases vs)
    case Nil
    then show ?thesis by (simp add: scan_no_newline)
  next
    case (Cons v vs')
    have "run_events pf [] (decode_all pf d0 (v # vs'))
          = fst (scan pf (concat (decode_all pf d0 (v # vs'))))"
      using run_events_one_text [of pf "[]" "snd (decode pf d0 v)"
              "decode_all pf (fst (decode pf d0 v)) vs'"]
      by simp
    then show ?thesis
      unfolding Cons by (simp only: concat_decode_all)
  qed
  finally show ?thesis .
qed

lemma stream_msgs:
  "msgs (final_state (read_loop pf (start_stream d0 ms) vs e))
     = ms @ [\<lparr>role = Assistant,
              content = concat (deltas (final_state (read_loop pf (start_stream d0 ms) vs e)))\<rparr>]"
  by (rule final_reply) (rule stream_reply_inv)

lemma decode_e_acute_head:
  \<open>decode demo utf8_initial e_acute_head
     = (utf8_pending, ascii ''data: {"choices":[{"delta":{"content":"'')\<close>
proof -
  have "decode_byte demo (utf8_initial\<lparr>bom_seen := True\<rparr>) 0xC3 = (utf8_pending, [])"
    by (simp add: demo_def utf8_decode_byte_def utf8_handler_def utf8_lead_def utf8_initial_def
          utf8_pending_def)
  then show ?thesis
    by (simp add: e_acute_head_def decode_append demo_decode_ascii utf8_initial_def)
qed

lemma decode_e_acute_tail:
  \<open>decode demo utf8_pending e_acute_tail
     = (utf8_initial\<lparr>bom_seen := True\<rparr>, [0xE9] @ ascii ''"}}]}'' @ [NL])\<close>
proof -
  have "decode_byte demo utf8_pending 0xA9 = (utf8_initial\<lparr>bom_seen := True\<rparr>, [0xE9])"
    by (simp add: demo_def utf8_decode_byte_def utf8_handler_def utf8_reset_def utf16_units_def
          utf8_initial_def utf8_pending_def Let_def)
  then show ?thesis
    by (simp add: e_acute_tail_def decode_append demo_decode_ascii demo_decode_byte_NL
          utf8_initial_def)
qed

lemma decode_e_acute:
  "snd (decode demo utf8_initial (concat [e_acute_head, e_acute_tail])) = e_acute_line @ [NL]"
  by (simp add: decode_append decode_e_acute_head decode_e_acute_tail e_acute_line_def)

lemma line_event_e_acute: "line_event demo e_acute_line = Delta [0xE9]"
  by (simp add: line_event_def e_acute_line_def str_defs delta_text_def demo_def demo_parse_def
        delta_json_def delta_content_def opt_member_def)

lemma e_acute_deltas:
  "deltas (final_state (read_loop demo (start_stream utf8_initial ms)
      [e_acute_head, e_acute_tail] Closed)) = [0xE9] # []"
proof -
  have n: "NL \<notin> set e_acute_line"
    by (simp add: e_acute_line_def str_defs)
  have "fst (scan demo (e_acute_line @ NL # [])) = [0xE9] # []"
    by (simp add: scan_front [OF n] line_event_e_acute scan_no_newline)
  then show ?thesis
    by (simp only: stream_deltas decode_e_acute append_Cons append_Nil)
qed


section \<open>Fragmentation does not matter\<close>

text \<open>
  C1: for every sequence \<open>vs\<close> of chunks, cut wherever the transport likes, the streaming block
  emits the same deltas in the same order, and ends with the same message list, as when the
  concatenation of the chunks arrives as one chunk. This holds for every stream, well formed
  or not, for every way the stream ends, and for every decoder that works byte by byte.
\<close>

theorem deltas_independent_of_fragmentation:
  "deltas (final_state (read_loop pf (start_stream d0 ms) vs e))
     = deltas (final_state (read_loop pf (start_stream d0 ms) [concat vs] e))
   \<and> msgs (final_state (read_loop pf (start_stream d0 ms) vs e))
     = msgs (final_state (read_loop pf (start_stream d0 ms) [concat vs] e))"
proof -
  have d: "deltas (final_state (read_loop pf (start_stream d0 ms) vs e))
     = deltas (final_state (read_loop pf (start_stream d0 ms) [concat vs] e))"
    by (simp add: stream_deltas)
  have "msgs (final_state (read_loop pf (start_stream d0 ms) vs e))
     = msgs (final_state (read_loop pf (start_stream d0 ms) [concat vs] e))"
    by (simp only: stream_msgs [of pf d0 ms vs e] stream_msgs [of pf d0 ms "[concat vs]" e] d)
  with d show ?thesis by simp
qed

theorem deltas_independent_of_fragmentation_witness:
  "deltas (final_state (read_loop demo (start_stream utf8_initial [hi])
       [concat [chunk1, chunk2]] Closed)) = [ascii ''Hel'', ascii ''lo'']
   \<and> deltas (final_state (read_loop demo (start_stream utf8_initial [hi])
       [chunk1, chunk2] Closed)) = [ascii ''Hel'', ascii ''lo'']
   \<and> deltas (final_state (read_loop demo (start_stream utf8_initial [hi])
       [e_acute_head, e_acute_tail] Closed)) = [0xE9] # []
   \<and> deltas (final_state (read_loop demo (start_stream utf8_initial [hi])
       [concat [e_acute_head, e_acute_tail]] Closed)) = [0xE9] # []"
proof -
  have a: "deltas (final_state (read_loop demo (start_stream utf8_initial [hi])
       [chunk1, chunk2] Closed)) = [ascii ''Hel'', ascii ''lo'']"
    by (simp add: example_run final_state_def example_final_def)
  note t1 = deltas_independent_of_fragmentation
      [of demo utf8_initial "[hi]" "[chunk1, chunk2]" Closed, THEN conjunct1]
  note t2 = deltas_independent_of_fragmentation
      [of demo utf8_initial "[hi]" "[e_acute_head, e_acute_tail]" Closed, THEN conjunct1]
  have b: "deltas (final_state (read_loop demo (start_stream utf8_initial [hi])
       [concat [chunk1, chunk2]] Closed)) = [ascii ''Hel'', ascii ''lo'']"
    using t1 a by (simp only:)
  note c = e_acute_deltas [of "[hi]"]
  have d: "deltas (final_state (read_loop demo (start_stream utf8_initial [hi])
       [concat [e_acute_head, e_acute_tail]] Closed)) = [0xE9] # []"
    using t2 c by (simp only:)
  from b a c d show ?thesis
    by (intro conjI)
qed


section \<open>A data line that fails to parse\<close>

text \<open>
  C2: let the inner loop reach a buffer whose first line \<open>l\<close> has the prefix \<^verbatim>\<open>data: \<close>, is not
  the sentinel, and has a payload that \<^verbatim>\<open>JSON.parse\<close> rejects. Then the loop ends at once with
  the line, a newline and the untouched rest \<open>r\<close> of the buffer as the new buffer, and nothing
  else changed: no line of \<open>r\<close> is looked at. The line put back keeps its \<^verbatim>\<open>data: \<close> prefix; it
  is the line as line 78 left it, that is \<open>l\<close> itself or \<open>l\<close> without its one trailing carriage
  return. The line is tried again only when the outer loop has read the next chunk \<open>v\<close> and
  appended its text to the buffer.
\<close>

theorem malformed_line_pushed_back:
  assumes "textBuffer s = l @ NL # r" and "NL \<notin> set l"
    and "startsWith l (ascii ''data: '')" and "payload l \<noteq> ascii ''[DONE]''"
    and "JSON_parse pf (payload l) = None" and "\<not> streamDone s"
  shows "process_lines pf s = s\<lparr>textBuffer := strip_cr l @ [NL] @ r\<rparr>
       \<and> (strip_cr l = l \<or> l = strip_cr l @ [CR])
       \<and> read_loop pf (process_lines pf s) (v # vs) e =
           read_loop pf (process_lines pf
             (s\<lparr>reads := reads s + 1, decoder := fst (decode pf (decoder s) v),
                textBuffer := strip_cr l @ [NL] @ r @ snd (decode pf (decoder s) v)\<rparr>)) vs e"
proof -
  have p: "process_lines pf s = s\<lparr>textBuffer := strip_cr l @ NL # r\<rparr>"
    using assms(1-4) delta_text_SyntaxError [OF assms(5)] by (rule process_lines_failed)
  show ?thesis
    using assms(6) by (simp add: p read_loop_Cons strip_cr_cases)
qed

theorem malformed_line_pushed_back_witness:
  "textBuffer (waiting (bad_line @ NL # hel_line @ [NL])) = bad_line @ NL # hel_line @ [NL]
   \<and> NL \<notin> set bad_line
   \<and> startsWith bad_line (ascii ''data: '')
   \<and> payload bad_line \<noteq> ascii ''[DONE]''
   \<and> JSON_parse demo (payload bad_line) = None
   \<and> \<not> streamDone (waiting (bad_line @ NL # hel_line @ [NL]))
   \<and> process_lines demo (waiting (bad_line @ NL # hel_line @ [NL]))
       = waiting (bad_line @ NL # hel_line @ [NL])"
proof -
  have h1: "textBuffer (waiting (bad_line @ NL # hel_line @ [NL])) = bad_line @ NL # hel_line @ [NL]"
    by (simp add: ex_defs)
  have h2: "NL \<notin> set bad_line"
    by (simp add: bad_line_def str_defs)
  have h3: "startsWith bad_line (ascii ''data: '')"
    by (simp add: bad_line_def str_defs)
  have h4: "payload bad_line \<noteq> ascii ''[DONE]''"
    by (simp add: bad_line_def str_defs)
  have h5: "JSON_parse demo (payload bad_line) = None"
    by (simp add: bad_line_def str_defs demo_def demo_parse_def)
  have h6: "\<not> streamDone (waiting (bad_line @ NL # hel_line @ [NL]))"
    by (simp add: ex_defs)
  have s: "strip_cr bad_line = bad_line"
    by (simp add: bad_line_def str_defs)
  from malformed_line_pushed_back [OF h1 h2 h3 h4 h5 h6]
  have "process_lines demo (waiting (bad_line @ NL # hel_line @ [NL]))
       = waiting (bad_line @ NL # hel_line @ [NL])"
    by (simp add: s waiting_def)
  with h1 h2 h3 h4 h5 h6 show ?thesis by blast
qed

text \<open>
  A line that ends with a carriage return comes back without it: after the failed attempt the
  buffer \<^verbatim>\<open>data: {bad json\r\n\<close> is \<^verbatim>\<open>data: {bad json\n\<close>.
\<close>

lemma carriage_return_not_put_back:
  "process_lines demo (waiting (bad_line @ [CR] @ [NL])) = waiting (bad_line @ [NL])"
proof -
  have h1: "textBuffer (waiting (bad_line @ [CR] @ [NL])) = (bad_line @ [CR]) @ NL # []"
    by (simp add: ex_defs)
  have h2: "NL \<notin> set (bad_line @ [CR])"
    by (simp add: bad_line_def str_defs)
  have h3: "startsWith (bad_line @ [CR]) (ascii ''data: '')"
    by (simp add: bad_line_def str_defs)
  have s: "strip_cr (bad_line @ [CR]) = bad_line"
    by (simp add: strip_cr_def endsWith_single)
  have p: "payload (bad_line @ [CR]) = payload bad_line"
    using payload_strip_cr [OF h3] by (simp add: s)
  have h4: "payload (bad_line @ [CR]) \<noteq> ascii ''[DONE]''"
    unfolding p by (simp add: bad_line_def str_defs)
  have h5: "delta_text demo (payload (bad_line @ [CR])) = Inl SyntaxError"
    unfolding p by (simp add: bad_line_def str_defs delta_text_def demo_def demo_parse_def)
  show ?thesis
    using process_lines_failed [OF h1 h2 h3 h4 h5] by (simp add: s waiting_def)
qed


section \<open>The sentinel\<close>

text \<open>
  C3: when the inner loop reaches a line with the prefix \<^verbatim>\<open>data: \<close> whose payload is \<^verbatim>\<open>[DONE]\<close>,
  it sets \<open>streamDone\<close> and stops: whatever follows in the buffer (\<open>r\<close>) stays there unread and
  no delta is emitted for it. The outer loop then ends without another \<^verbatim>\<open>reader.read()\<close>,
  whatever chunks \<open>vs\<close> the reader still holds and even if the stream would abort: the state,
  with its logs of deltas, updates and reads, is the one the sentinel left.
\<close>

theorem sentinel_ends_stream:
  assumes "textBuffer s = l @ NL # r" and "NL \<notin> set l"
    and "startsWith l (ascii ''data: '')" and "payload l = ascii ''[DONE]''"
  shows "process_lines pf s = s\<lparr>textBuffer := r, streamDone := True\<rparr>
       \<and> read_loop pf (process_lines pf s) vs e = Inr (s\<lparr>textBuffer := r, streamDone := True\<rparr>)"
proof -
  have p: "process_lines pf s = s\<lparr>textBuffer := r, streamDone := True\<rparr>"
    using assms by (rule process_lines_done)
  show ?thesis
    by (simp add: p read_loop_done)
qed

theorem sentinel_ends_stream_witness:
  "textBuffer (waiting (done_line @ NL # hel_line @ [NL])) = done_line @ NL # hel_line @ [NL]
   \<and> NL \<notin> set done_line
   \<and> startsWith done_line (ascii ''data: '')
   \<and> payload done_line = ascii ''[DONE]''
   \<and> process_lines demo (waiting (done_line @ NL # hel_line @ [NL]))
       = (waiting (hel_line @ [NL]))\<lparr>streamDone := True\<rparr>
   \<and> read_loop demo (process_lines demo (waiting (done_line @ NL # hel_line @ [NL])))
         [bytes ''data: [DONE]'' @ [0x0A]] Aborted
       = Inr ((waiting (hel_line @ [NL]))\<lparr>streamDone := True\<rparr>)"
proof -
  have h1: "textBuffer (waiting (done_line @ NL # hel_line @ [NL]))
            = done_line @ NL # hel_line @ [NL]"
    by (simp add: ex_defs)
  have h2: "NL \<notin> set done_line"
    by (simp add: done_line_def str_defs)
  have h3: "startsWith done_line (ascii ''data: '')"
    by (simp add: done_line_def str_defs)
  have h4: "payload done_line = ascii ''[DONE]''"
    by (simp add: done_line_def str_defs)
  have w: "(waiting (done_line @ NL # hel_line @ [NL]))\<lparr>textBuffer := hel_line @ [NL],
              streamDone := True\<rparr> = (waiting (hel_line @ [NL]))\<lparr>streamDone := True\<rparr>"
    by (simp add: waiting_def)
  note c = sentinel_ends_stream [OF h1 h2 h3 h4, of demo "[bytes ''data: [DONE]'' @ [0x0A]]" Aborted,
      unfolded w]
  from c h1 h2 h3 h4 show ?thesis by blast
qed


section \<open>Comments and blank lines\<close>

text \<open>
  C6: a first line \<open>l\<close> of the buffer that starts with \<^verbatim>\<open>:\<close> or is empty after \<^verbatim>\<open>trim\<close> (a lone
  carriage return is such a line) is dropped: the inner loop goes on exactly as if the buffer
  had held only what follows the line. So the line emits nothing, changes nothing, is never
  looked at again, and the lines after it are handled as they would be without it.
\<close>

theorem comment_and_blank_lines_skipped:
  assumes "textBuffer s = l @ NL # r" and "NL \<notin> set l"
    and "startsWith l (ascii '':'') \<or> trim l = []"
  shows "process_lines pf s = process_lines pf (s\<lparr>textBuffer := r\<rparr>)"
  using assms by (rule process_lines_ignored)

theorem comment_and_blank_lines_skipped_witness:
  "textBuffer (waiting ([CR] @ NL # hel_line @ [NL])) = [CR] @ NL # hel_line @ [NL]
   \<and> NL \<notin> set [CR]
   \<and> (startsWith [CR] (ascii '':'') \<or> trim [CR] = [])
   \<and> process_lines demo (waiting ([CR] @ NL # hel_line @ [NL]))
       = process_lines demo (waiting (hel_line @ [NL]))"
proof -
  have h1: "textBuffer (waiting ([CR] @ NL # hel_line @ [NL])) = [CR] @ NL # hel_line @ [NL]"
    by (simp add: ex_defs)
  have h2: "NL \<notin> set [CR]"
    by (simp add: str_defs)
  have h3: "startsWith [CR] (ascii '':'') \<or> trim [CR] = []"
    by (simp add: str_defs)
  have w: "(waiting ([CR] @ NL # hel_line @ [NL]))\<lparr>textBuffer := hel_line @ [NL]\<rparr>
           = waiting (hel_line @ [NL])"
    by (simp add: waiting_def)
  note c = comment_and_blank_lines_skipped [OF h1 h2 h3, of demo, unfolded w]
  from c h1 h2 h3 show ?thesis by blast
qed


section \<open>A line that never parses blocks the stream\<close>

text \<open>
  C9: let the buffer start with a complete line \<open>l\<close> with the prefix \<^verbatim>\<open>data: \<close> that is not the
  sentinel and whose payload \<^verbatim>\<open>JSON.parse\<close> rejects, while the stream is not done. Then, whatever
  chunks \<open>vs\<close> arrive and however the stream ends, the outer loop reads them all and ends in
  the state it started from but for the decoder, the count of reads and the buffer: no delta
  is emitted, no message is updated, \<open>streamDone\<close> stays false, and the buffer holds the line
  (each attempt removes one trailing carriage return, if there is one), the newline,
  everything that was queued behind it (\<open>r\<close>) and all the text decoded from the chunks.
\<close>

theorem malformed_line_blocks_stream:
  assumes "textBuffer s = l @ NL # r" and "NL \<notin> set l"
    and "startsWith l (ascii ''data: '')" and "payload l \<noteq> ascii ''[DONE]''"
    and "JSON_parse pf (payload l) = None" and "\<not> streamDone s"
  shows "final_state (read_loop pf s vs e) =
           s\<lparr>textBuffer := (strip_cr ^^ length vs) l @ [NL] @ r
                              @ snd (decode pf (decoder s) (concat vs)),
             decoder := fst (decode pf (decoder s) (concat vs)),
             reads := reads s + length vs + 1\<rparr>"
  using stalled_forever [OF assms(1-4) delta_text_SyntaxError [OF assms(5)] assms(6)]
  by simp

theorem malformed_line_blocks_stream_witness:
  "textBuffer (waiting (bad_line @ NL # hel_line @ [NL])) = bad_line @ NL # hel_line @ [NL]
   \<and> NL \<notin> set bad_line
   \<and> startsWith bad_line (ascii ''data: '')
   \<and> payload bad_line \<noteq> ascii ''[DONE]''
   \<and> JSON_parse demo (payload bad_line) = None
   \<and> \<not> streamDone (waiting (bad_line @ NL # hel_line @ [NL]))
   \<and> deltas (final_state (read_loop demo (waiting (bad_line @ NL # hel_line @ [NL]))
         [bytes ''data: [DONE]'' @ [0x0A]] Closed)) = []
   \<and> \<not> streamDone (final_state (read_loop demo (waiting (bad_line @ NL # hel_line @ [NL]))
         [bytes ''data: [DONE]'' @ [0x0A]] Closed))"
proof -
  have h1: "textBuffer (waiting (bad_line @ NL # hel_line @ [NL])) = bad_line @ NL # hel_line @ [NL]"
    by (simp add: ex_defs)
  have h2: "NL \<notin> set bad_line"
    by (simp add: bad_line_def str_defs)
  have h3: "startsWith bad_line (ascii ''data: '')"
    by (simp add: bad_line_def str_defs)
  have h4: "payload bad_line \<noteq> ascii ''[DONE]''"
    by (simp add: bad_line_def str_defs)
  have h5: "JSON_parse demo (payload bad_line) = None"
    by (simp add: bad_line_def str_defs demo_def demo_parse_def)
  have h6: "\<not> streamDone (waiting (bad_line @ NL # hel_line @ [NL]))"
    by (simp add: ex_defs)
  have d: "deltas (waiting (bad_line @ NL # hel_line @ [NL])) = []"
    by (simp add: ex_defs)
  from malformed_line_blocks_stream [OF h1 h2 h3 h4 h5 h6,
      of "[bytes ''data: [DONE]'' @ [0x0A]]" Closed]
  have "deltas (final_state (read_loop demo (waiting (bad_line @ NL # hel_line @ [NL]))
         [bytes ''data: [DONE]'' @ [0x0A]] Closed)) = []
   \<and> \<not> streamDone (final_state (read_loop demo (waiting (bad_line @ NL # hel_line @ [NL]))
         [bytes ''data: [DONE]'' @ [0x0A]] Closed))"
    using d h6 by simp
  with h1 h2 h3 h4 h5 h6 show ?thesis by blast
qed


section \<open>The send action while a request is in flight\<close>

text \<open>
  C8: whenever the loading flag is set, \<^verbatim>\<open>sendMessage\<close> does nothing: the message list, the
  input text and the loading flag stay as they are, no notification is raised and no request
  is issued (the list of requests is unchanged), whatever the server would have answered.
\<close>

theorem sendMessage_while_loading:
  "loading st \<Longrightarrow> sendMessage pf d0 resp st = st"
  by (simp add: sendMessage_def)

theorem sendMessage_while_loading_witness:
  "loading ((mounted (ascii ''hi''))\<lparr>loading := True\<rparr>)
   \<and> sendMessage demo utf8_initial (Response True None) ((mounted (ascii ''hi''))\<lparr>loading := True\<rparr>)
       = (mounted (ascii ''hi''))\<lparr>loading := True\<rparr>"
proof -
  have h: "loading ((mounted (ascii ''hi''))\<lparr>loading := True\<rparr>)"
    by simp
  from sendMessage_while_loading [OF h, of demo utf8_initial "Response True None"] h
  show ?thesis by blast
qed


section \<open>The reply is the concatenation of the deltas\<close>

text \<open>
  C4: when \<^verbatim>\<open>sendMessage\<close> is run on a state that passes the guard, the server answers with a
  readable body, and the outer loop is left without an exception (the stream ended or the
  sentinel came) in state \<open>s\<close>, then the message list ends with the user message and one
  assistant message whose content is the concatenation, in order, of all deltas emitted
  (the log \<open>deltas\<close>); it is also the final value of \<open>assistantContent\<close>.
\<close>

theorem reply_is_concat_of_deltas:
  assumes "trim (input st) \<noteq> []" and "\<not> loading st"
    and "read_loop pf (start_stream d0 (messages st @ [\<lparr>role = User, content = input st\<rparr>]))
           (chunks r) (ending r) = Inr s"
  shows "messages (sendMessage pf d0 (Response True (Some r)) st) =
           messages st @ [\<lparr>role = User, content = input st\<rparr>,
                          \<lparr>role = Assistant, content = concat (deltas s)\<rparr>]
       \<and> assistantContent s = concat (deltas s)"
proof -
  let ?ms = "messages st @ [\<lparr>role = User, content = input st\<rparr>]"
  have inv: "reply_inv (?ms @ [\<lparr>role = Assistant, content = []\<rparr>]) s"
    using stream_reply_inv [of ?ms pf d0 "chunks r" "ending r"] assms(3)
    by (simp add: final_state_def)
  have m: "msgs s = ?ms @ [\<lparr>role = Assistant, content = concat (deltas s)\<rparr>]"
    using inv by (rule final_reply)
  have a: "assistantContent s = concat (deltas s)"
    using inv by (simp add: reply_inv_def)
  show ?thesis
    using m a assms(3)
    by (simp add: sendMessage_stream [OF assms(1,2)] Let_def finally_block_def)
qed

theorem reply_is_concat_of_deltas_witness:
  "trim (input (mounted (ascii ''hi''))) \<noteq> []
   \<and> \<not> loading (mounted (ascii ''hi''))
   \<and> read_loop demo (start_stream utf8_initial
         (messages (mounted (ascii ''hi''))
            @ [\<lparr>role = User, content = input (mounted (ascii ''hi''))\<rparr>]))
         (chunks \<lparr>chunks = [chunk1, chunk2], ending = Closed\<rparr>)
         (ending \<lparr>chunks = [chunk1, chunk2], ending = Closed\<rparr>)
       = Inr (example_final (messages (mounted (ascii ''hi''))
            @ [\<lparr>role = User, content = input (mounted (ascii ''hi''))\<rparr>]))
   \<and> messages (sendMessage demo utf8_initial
         (Response True (Some \<lparr>chunks = [chunk1, chunk2], ending = Closed\<rparr>))
         (mounted (ascii ''hi'')))
       = [reply (ascii ''Hi!''), hi, reply (ascii ''Hello'')]"
proof -
  let ?st = "mounted (ascii ''hi'')"
  let ?r = "\<lparr>chunks = [chunk1, chunk2], ending = Closed\<rparr>"
  let ?ms = "messages ?st @ [\<lparr>role = User, content = input ?st\<rparr>]"
  have h1: "trim (input ?st) \<noteq> []"
    by (simp add: mounted_def str_defs)
  have h2: "\<not> loading ?st"
    by (simp add: mounted_def)
  have h3: "read_loop demo (start_stream utf8_initial ?ms) (chunks ?r) (ending ?r)
            = Inr (example_final ?ms)"
    by (simp add: example_run)
  have c: "concat (deltas (example_final ?ms)) = ascii ''Hello''"
    by (simp add: example_final_def ascii_def)
  have "messages (sendMessage demo utf8_initial (Response True (Some ?r)) ?st)
        = [reply (ascii ''Hi!''), hi, reply (ascii ''Hello'')]"
    using reply_is_concat_of_deltas [OF h1 h2 h3]
    by (simp add: c) (simp add: mounted_def reply_def hi_def)
  with h1 h2 h3 show ?thesis by blast
qed


section \<open>The reply grows\<close>

text \<open>
  C7: take the message list as it is when the placeholder has been appended, followed by the
  list after each update made while the stream is read, whatever chunks arrive and however
  the stream ends. From each list to the next, the content of the last message of the former
  is a prefix of the content of the last message of the latter.
\<close>

theorem reply_grows_monotonically:
  "successively grows
     (msgs (start_stream d0 ms) # history (final_state (read_loop pf (start_stream d0 ms) vs e)))"
  using stream_reply_inv [of ms pf d0 vs e]
  by (simp add: reply_inv_def start_stream_def)

theorem reply_grows_monotonically_witness:
  "successively grows
     ([hi, reply []] # [hi, reply (ascii ''Hel'')] # [hi, reply (ascii ''Hello'')] # [])
   \<and> prefix (ascii ''Hel'') (ascii ''Hello'')"
proof -
  have m: "msgs (start_stream utf8_initial [hi]) = [hi, reply []]"
    by (simp add: start_stream_def reply_def)
  have h: "history (final_state (read_loop demo (start_stream utf8_initial [hi])
                [chunk1, chunk2] Closed))
           = [hi, reply (ascii ''Hel'')] # [hi, reply (ascii ''Hello'')] # []"
    by (simp add: example_run final_state_def example_final_def)
  from reply_grows_monotonically [of utf8_initial "[hi]" demo "[chunk1, chunk2]" Closed]
  show ?thesis
    unfolding m h by (simp add: grows_def reply_def)
qed


section \<open>An update replaces the last message only\<close>

text \<open>
  C10: the updater of lines 93 to 100 returns a list of the same length whose elements before
  the last one are those of the list it was given, in the same order; and this holds from each
  message list to the next for all updates made while a stream is read.
\<close>

theorem updates_replace_last_only:
  "only_last_replaced prev (set_last_message text prev)
   \<and> successively only_last_replaced
       (msgs (start_stream d0 ms) # history (final_state (read_loop pf (start_stream d0 ms) vs e)))"
  using stream_reply_inv [of ms pf d0 vs e]
  by (simp add: reply_inv_def start_stream_def only_last_replaced_def
        set_last_message_length set_last_message_butlast)

theorem updates_replace_last_only_witness:
  "only_last_replaced [hi, reply []] (set_last_message (ascii ''Hel'') [hi, reply []])
   \<and> set_last_message (ascii ''Hel'') [hi, reply []] = [hi, reply (ascii ''Hel'')]
   \<and> successively only_last_replaced
       ([hi, reply []] # [hi, reply (ascii ''Hel'')] # [hi, reply (ascii ''Hello'')] # [])"
proof -
  have m: "msgs (start_stream utf8_initial [hi]) = [hi, reply []]"
    by (simp add: start_stream_def reply_def)
  have h: "history (final_state (read_loop demo (start_stream utf8_initial [hi])
                [chunk1, chunk2] Closed))
           = [hi, reply (ascii ''Hel'')] # [hi, reply (ascii ''Hello'')] # []"
    by (simp add: example_run final_state_def example_final_def)
  have u: "set_last_message (ascii ''Hel'') [hi, reply []] = [hi, reply (ascii ''Hel'')]"
    by (simp add: set_last_message_def reply_def)
  from updates_replace_last_only [of "[hi, reply []]" "ascii ''Hel''" utf8_initial "[hi]" demo
      "[chunk1, chunk2]" Closed] u
  show ?thesis
    unfolding m h by simp
qed


section \<open>A failed request\<close>

text \<open>
  When the stream aborts (\<^verbatim>\<open>reader.read()\<close> throws), the assistant message appended at line 65
  is the last one, and the \<^verbatim>\<open>catch\<close> block removes it: the list is left with the user message
  at its end.
\<close>

lemma abort_rolls_back_reply:
  assumes "trim (input st) \<noteq> []" and "\<not> loading st"
    and "read_loop pf (start_stream d0 (messages st @ [\<lparr>role = User, content = input st\<rparr>]))
           (chunks r) (ending r) = Inl s"
  shows "messages (sendMessage pf d0 (Response True (Some r)) st) =
           messages st @ [\<lparr>role = User, content = input st\<rparr>]"
proof -
  let ?ms = "messages st @ [\<lparr>role = User, content = input st\<rparr>]"
  have inv: "reply_inv (?ms @ [\<lparr>role = Assistant, content = []\<rparr>]) s"
    using stream_reply_inv [of ?ms pf d0 "chunks r" "ending r"] assms(3)
    by (simp add: final_state_def)
  then have "butlast (msgs s) = ?ms"
    by (simp add: reply_inv_def butlast_append)
  then show ?thesis
    using assms(3)
    by (simp add: sendMessage_stream [OF assms(1,2)] Let_def finally_block_def catch_block_def)
qed

text \<open>
  When the response is not \<^verbatim>\<open>ok\<close>, line 53 throws before line 65 is reached: the message that
  the \<^verbatim>\<open>catch\<close> block removes is the one the user has just sent, and the message list is left
  as it was before the call, while the input field has been cleared.
\<close>

lemma not_ok_removes_user_message:
  assumes "trim (input st) \<noteq> []" and "\<not> loading st"
  shows "sendMessage pf d0 (Response False body) st
         = st\<lparr>input := [], toasts := toasts st + 1,
              requests := requests st @ [messages st @ [\<lparr>role = User, content = input st\<rparr>]]\<rparr>"
  using assms by (simp add: sendMessage_def Let_def catch_block_def finally_block_def)

text \<open>
  C5: a failed request raises one notification and ends the deltas, and after a stream abort
  the assistant message is removed, as shown above. After a response that is not \<^verbatim>\<open>ok\<close>,
  however, no assistant message was ever appended and the message removed is the message of the
  user: after HTTP 500 for the input \<^verbatim>\<open>hi\<close> the list holds the greeting only, the input field
  is empty, and one notification was raised.
\<close>

theorem http_error_removes_user_message:
  "sendMessage demo utf8_initial (Response False None) (mounted (ascii ''hi''))
     = (mounted [])\<lparr>toasts := 1, requests := [messages (mounted []) @ [hi]]\<rparr>
   \<and> messages (sendMessage demo utf8_initial (Response False None) (mounted (ascii ''hi'')))
     = [reply (ascii ''Hi!'')]"
  by (simp add: sendMessage_def mounted_def Let_def catch_block_def finally_block_def hi_def
        reply_def str_defs)

end
